theory Spec2Isabelle
  imports Main
begin

section \<open>Data model\<close>

text \<open>
  Objects are identified by natural numbers (their identity), as the source's WeakMaps,
  Maps and Sets compare them. Effects, dependency sets (\<open>Dep = Set<ReactiveEffect>\<close>),
  computed refs and plain objects live in separate heaps of the state.
\<close>

datatype val = Undefined | Null | Num int | Obj nat | EffectFn nat

text \<open>A key is \<open>string | symbol\<close>; symbols are compared by identity.\<close>

datatype key = KStr string | KSym nat

definition ITERATE_KEY :: key where
  "ITERATE_KEY = KSym 0"

text \<open>
  Modelled from the spec: the enum \<open>OperationTypes\<close> of \<open>./operations\<close>, which the
  sources import; the spec names the read kinds GET, HAS, ITERATE and the write kinds
  SET, ADD, DELETE, CLEAR.
\<close>

datatype OperationTypes = SET | ADD | DELETE | CLEAR | GET | HAS | ITERATE

text \<open>
  User code. The functions handed to \<open>effect\<close> and \<open>computed\<close> are JavaScript
  closures; they are represented by the sequence of calls they make into the library,
  working on an accumulator (the value of the last expression, returned at the end) and
  on the user's own variables. \<open>Emit\<close> appends the accumulator to a user array.
\<close>

datatype cmd =
    Const val
  | Load nat
  | Store nat
  | Emit
  | Track nat OperationTypes "key option"
  | Trigger nat OperationTypes "key option"
  | Invoke nat
  | Stop nat
  | GetValue nat
  | SetValue nat
  | PauseTracking
  | ResumeTracking
  | ThrowAcc

text \<open>
  A function value: user code, or one of the two closures that \<open>computed\<close> builds
  itself (its scheduler \<open>() => { dirty = true }\<close> for the computed ref with the given
  identity, and the empty setter of a read-only computed ref).
\<close>

datatype fn = Code "cmd list" | Invalidate nat | ReadonlySetter

record ReactiveEffect =
  active :: bool
  raw :: fn
  deps :: "nat list"
  is_computed :: bool
  scheduler :: "fn option"
  onTrack :: "fn option"
  onTrigger :: "fn option"
  onStop :: "fn option"

record ReactiveEffectOptions =
  opt_lazy :: bool
  opt_computed :: bool
  opt_scheduler :: "fn option"
  opt_onTrack :: "fn option"
  opt_onTrigger :: "fn option"
  opt_onStop :: "fn option"

text \<open>The closure variables and the accessors of one object returned by \<open>computed\<close>.\<close>

record ComputedRef =
  dirty :: bool
  cached :: val
  runner :: nat
  setter :: fn

text \<open>What the code reads of a plain object: the properties tested by \<open>canObserve\<close>,
  \<open>Array.isArray\<close> and whether its constructor is one of the collection types.\<close>

record objinfo =
  isVue :: bool
  isVNode :: bool
  typeString :: string
  isArray :: bool
  ctorIsCollection :: bool

datatype handlers =
  mutableHandlers | readonlyHandlers | mutableCollectionHandlers | readonlyCollectionHandlers

datatype message = Warn string val

text \<open>
  The module-level state of \<open>effect.ts\<close> and \<open>reactive.ts\<close>, with the heaps of the
  objects they point to. A \<open>Map\<close> is an association list in insertion order, a \<open>Set\<close> a
  duplicate-free list in insertion order (both iterate in that order).
\<close>

record state =
  targetMap :: "nat \<rightharpoonup> (key option \<times> nat) list"
  depObjs :: "nat \<Rightarrow> nat list"
  nextDep :: nat
  effectObjs :: "nat \<Rightarrow> ReactiveEffect"
  nextEffect :: nat
  activeReactiveEffectStack :: "nat list"
  shouldTrack :: bool
  computedObjs :: "nat \<Rightarrow> ComputedRef"
  nextComputed :: nat
  mem :: "nat \<Rightarrow> val"
  emitted :: "val list"
  DEV :: bool
  console :: "message list"
  rawToReactive :: "nat \<rightharpoonup> val"
  reactiveToRaw :: "nat \<rightharpoonup> val"
  rawToReadonly :: "nat \<rightharpoonup> val"
  readonlyToRaw :: "nat \<rightharpoonup> val"
  readonlyValues :: "nat set"
  nonReactiveValues :: "nat set"
  objs :: "nat \<Rightarrow> objinfo"
  proxies :: "nat \<rightharpoonup> (nat \<times> handlers)"
  nextObj :: nat

text \<open>A call either returns a value or throws one; \<open>None\<close> is a call that does not
  return (the fuel of the interpreter below ran out).\<close>

datatype 'a completion = Returned 'a | Thrown val

type_synonym 'a result = "('a completion \<times> state) option"

type_synonym call = "fn \<Rightarrow> val \<Rightarrow> state \<Rightarrow> val result"

definition void :: "state \<Rightarrow> val result" where
  "void s = Some (Returned Undefined, s)"

definition and_then :: "'a result \<Rightarrow> ('a \<Rightarrow> state \<Rightarrow> 'b result) \<Rightarrow> 'b result" where
  "and_then r k =
     (case r of
        None \<Rightarrow> None
      | Some (Thrown x, s) \<Rightarrow> Some (Thrown x, s)
      | Some (Returned v, s) \<Rightarrow> k v s)"

section \<open>effect.ts\<close>

definition upd_effect :: "nat \<Rightarrow> (ReactiveEffect \<Rightarrow> ReactiveEffect) \<Rightarrow> state \<Rightarrow> state" where
  "upd_effect e f s = s\<lparr>effectObjs := (effectObjs s)(e := f (effectObjs s e))\<rparr>"

definition upd_dep :: "nat \<Rightarrow> (nat list \<Rightarrow> nat list) \<Rightarrow> state \<Rightarrow> state" where
  "upd_dep d f s = s\<lparr>depObjs := (depObjs s)(d := f (depObjs s d))\<rparr>"

definition upd_computed :: "nat \<Rightarrow> (ComputedRef \<Rightarrow> ComputedRef) \<Rightarrow> state \<Rightarrow> state" where
  "upd_computed c f s = s\<lparr>computedObjs := (computedObjs s)(c := f (computedObjs s c))\<rparr>"

text \<open>\<open>Set.prototype.add\<close> and \<open>Set.prototype.delete\<close> on the list of members.\<close>

definition set_add :: "nat \<Rightarrow> nat list \<Rightarrow> nat list" where
  "set_add x xs = (if x \<in> set xs then xs else xs @ [x])"

definition set_delete :: "nat \<Rightarrow> nat list \<Rightarrow> nat list" where
  "set_delete x xs = removeAll x xs"

definition createReactiveEffect :: "fn \<Rightarrow> ReactiveEffectOptions \<Rightarrow> state \<Rightarrow> nat \<times> state" where
  "createReactiveEffect f options s =
     (let e = nextEffect s in
      (e, s\<lparr>effectObjs := (effectObjs s)(e :=
               \<lparr>active = True, raw = f, deps = [],
                is_computed = opt_computed options,
                scheduler = opt_scheduler options,
                onTrack = opt_onTrack options,
                onTrigger = opt_onTrigger options,
                onStop = opt_onStop options\<rparr>),
             nextEffect := Suc e\<rparr>))"

text \<open>\<open>cleanup\<close>: delete the effect from every set of its \<open>deps\<close>, then empty the list.\<close>

definition cleanup :: "nat \<Rightarrow> state \<Rightarrow> state" where
  "cleanup e s =
     (let ds = deps (effectObjs s e) in
      if ds \<noteq> [] then
        upd_effect e (\<lambda>r. r\<lparr>deps := []\<rparr>) (fold (\<lambda>d. upd_dep d (set_delete e)) ds s)
      else s)"

text \<open>
  \<open>run\<close>. The effect function created by \<open>createReactiveEffect\<close> calls
  \<open>run(effect, fn, args)\<close> with the \<open>fn\<close> it stored as \<open>effect.raw\<close>; the effects of the
  model are called without arguments. \<open>push\<close> and \<open>pop\<close> are the array methods on
  \<open>activeReactiveEffectStack\<close>; the \<open>finally\<close> block pops whether the function returned or
  threw. When the effect is active and already on the stack, the
  function falls off its end: it returns \<open>undefined\<close>.
\<close>

definition push :: "nat \<Rightarrow> state \<Rightarrow> state" where
  "push e s = s\<lparr>activeReactiveEffectStack := activeReactiveEffectStack s @ [e]\<rparr>"

definition pop :: "state \<Rightarrow> state" where
  "pop s = s\<lparr>activeReactiveEffectStack := butlast (activeReactiveEffectStack s)\<rparr>"

definition run :: "call \<Rightarrow> nat \<Rightarrow> state \<Rightarrow> val result" where
  "run call e s =
     (if \<not> active (effectObjs s e) then call (raw (effectObjs s e)) Undefined s
      else if e \<notin> set (activeReactiveEffectStack s) then
        (case call (raw (effectObjs s e)) Undefined (push e (cleanup e s)) of
           None \<Rightarrow> None
         | Some (c, s3) \<Rightarrow> Some (c, pop s3))
      else Some (Returned Undefined, s))"

definition effect_fn :: "state \<Rightarrow> nat + fn \<Rightarrow> fn" where
  "effect_fn s f = (case f of Inl e \<Rightarrow> raw (effectObjs s e) | Inr g \<Rightarrow> g)"

text \<open>\<open>effect(fn, options)\<close>; \<open>fn\<close> is an effect (\<open>Inl\<close>, then its \<open>raw\<close> is taken) or a
  plain function.\<close>

definition effect :: "call \<Rightarrow> nat + fn \<Rightarrow> ReactiveEffectOptions \<Rightarrow> state \<Rightarrow> nat result" where
  "effect call f options s =
     (case createReactiveEffect (effect_fn s f) options s of
        (e, s1) \<Rightarrow>
          if \<not> opt_lazy options then and_then (run call e s1) (\<lambda>_ s2. Some (Returned e, s2))
          else Some (Returned e, s1))"

text \<open>\<open>stop\<close>: the \<open>onStop\<close> callback runs after the cleanup and before \<open>active\<close> is
  cleared.\<close>

definition stop :: "call \<Rightarrow> nat \<Rightarrow> state \<Rightarrow> val result" where
  "stop call e s =
     (if active (effectObjs s e) then
        (let s1 = cleanup e s in
         and_then (case onStop (effectObjs s1 e) of
                     Some f \<Rightarrow> call f Undefined s1
                   | None \<Rightarrow> void s1)
           (\<lambda>_ s2. void (upd_effect e (\<lambda>r. r\<lparr>active := False\<rparr>) s2)))
      else void s)"

definition pauseTracking :: "state \<Rightarrow> state" where
  "pauseTracking s = s\<lparr>shouldTrack := False\<rparr>"

definition resumeTracking :: "state \<Rightarrow> state" where
  "resumeTracking s = s\<lparr>shouldTrack := True\<rparr>"

text \<open>The two statements \<open>dep.add(effect); effect.deps.push(dep)\<close> of \<open>track\<close> and of
  \<open>trackChildRun\<close>.\<close>

definition subscribe :: "nat \<Rightarrow> nat \<Rightarrow> state \<Rightarrow> state" where
  "subscribe e dep s = upd_effect e (\<lambda>r. r\<lparr>deps := deps r @ [dep]\<rparr>) (upd_dep dep (set_add e) s)"

text \<open>\<open>targetMap.get(target)\<close>, creating the key map when it is missing.\<close>

definition get_depsMap :: "nat \<Rightarrow> state \<Rightarrow> (key option \<times> nat) list \<times> state" where
  "get_depsMap target s =
     (case targetMap s target of
        None \<Rightarrow> ([], s\<lparr>targetMap := (targetMap s)(target \<mapsto> [])\<rparr>)
      | Some depsMap \<Rightarrow> (depsMap, s))"

text \<open>\<open>depsMap.get(key)\<close>, creating the set (a new \<open>Set\<close> object) when it is missing.\<close>

definition get_dep :: "nat \<Rightarrow> (key option \<times> nat) list \<Rightarrow> key option \<Rightarrow> state \<Rightarrow> nat \<times> state" where
  "get_dep target depsMap k s =
     (case map_of depsMap k of
        None \<Rightarrow>
          (let dep = nextDep s in
           (dep, s\<lparr>targetMap := (targetMap s)(target \<mapsto> depsMap @ [(k, dep)]),
                   depObjs := (depObjs s)(dep := []),
                   nextDep := Suc dep\<rparr>))
      | Some dep \<Rightarrow> (dep, s))"

text \<open>\<open>track\<close>. The debugger event handed to \<open>onTrack\<close> is not represented: the callback
  is called with \<open>undefined\<close>.\<close>

definition track :: "call \<Rightarrow> nat \<Rightarrow> OperationTypes \<Rightarrow> key option \<Rightarrow> state \<Rightarrow> val result" where
  "track call target type k s =
     (if \<not> shouldTrack s then void s
      else if activeReactiveEffectStack s = [] then void s
      else
         (let e = last (activeReactiveEffectStack s);
              k' = (if type = ITERATE then Some ITERATE_KEY else k)
          in case get_depsMap target s of (depsMap, s1) \<Rightarrow>
             case get_dep target depsMap k' s1 of (dep, s2) \<Rightarrow>
               if e \<notin> set (depObjs s2 dep) then
                 (let s3 = subscribe e dep s2 in
                  if DEV s3 then
                    (case onTrack (effectObjs s3 e) of
                       Some f \<Rightarrow> and_then (call f Undefined s3) (\<lambda>_. void)
                     | None \<Rightarrow> void s3)
                  else void s3)
               else void s2))"

text \<open>\<open>addRunners\<close> on the pair \<open>(effects, computedRunners)\<close> of local sets;
  \<open>addRunner\<close> is the function it passes to \<open>effectsToAdd.forEach\<close>.\<close>

definition addRunner :: "state \<Rightarrow> nat \<Rightarrow> nat list \<times> nat list \<Rightarrow> nat list \<times> nat list" where
  "addRunner s e acc =
     (case acc of (effects, computedRunners) \<Rightarrow>
        if is_computed (effectObjs s e) then (effects, set_add e computedRunners)
        else (set_add e effects, computedRunners))"

definition addRunners ::
  "state \<Rightarrow> nat list \<times> nat list \<Rightarrow> nat list option \<Rightarrow> nat list \<times> nat list" where
  "addRunners s acc effectsToAdd =
     (case effectsToAdd of
        None \<Rightarrow> acc
      | Some es \<Rightarrow> fold (addRunner s) es acc)"

definition dep_members :: "state \<Rightarrow> nat option \<Rightarrow> nat list option" where
  "dep_members s d = map_option (depObjs s) d"

text \<open>The first half of \<open>trigger\<close>: the sets \<open>effects\<close> and \<open>computedRunners\<close> it collects
  from the key map of the target.\<close>

definition resolve ::
  "state \<Rightarrow> nat \<Rightarrow> (key option \<times> nat) list \<Rightarrow> OperationTypes \<Rightarrow> key option \<Rightarrow> nat list \<times> nat list" where
  "resolve s target depsMap type k =
     (if type = CLEAR then
        fold (\<lambda>(_, dep) acc. addRunners s acc (Some (depObjs s dep))) depsMap ([], [])
      else
        (let r1 = (if k \<noteq> None then addRunners s ([], []) (dep_members s (map_of depsMap k))
                   else ([], []));
             iterationKey = (if isArray (objs s target) then KStr ''length'' else ITERATE_KEY)
         in if type = ADD \<or> type = DELETE
            then addRunners s r1 (dep_members s (map_of depsMap (Some iterationKey)))
            else r1))"

text \<open>\<open>scheduleRun\<close>. The event handed to \<open>onTrigger\<close> is not represented, nor is the
  parameter \<open>extraInfo\<close> of \<open>trigger\<close>, which only goes into that event; the scheduler
  receives the effect.\<close>

definition scheduleRun :: "call \<Rightarrow> nat \<Rightarrow> state \<Rightarrow> val result" where
  "scheduleRun call e s =
     and_then (if DEV s then
                 (case onTrigger (effectObjs s e) of
                    Some f \<Rightarrow> call f Undefined s
                  | None \<Rightarrow> void s)
               else void s)
       (\<lambda>_ s1. case scheduler (effectObjs s1 e) of
                 Some f \<Rightarrow> call f (EffectFn e) s1
               | None \<Rightarrow> run call e s1)"

text \<open>\<open>set.forEach(run)\<close> over a local set: a throwing callback ends the iteration.\<close>

fun forEach_run :: "call \<Rightarrow> nat list \<Rightarrow> state \<Rightarrow> val result" where
  "forEach_run call [] s = void s"
| "forEach_run call (e # es) s = and_then (scheduleRun call e s) (\<lambda>_. forEach_run call es)"

definition trigger :: "call \<Rightarrow> nat \<Rightarrow> OperationTypes \<Rightarrow> key option \<Rightarrow> state \<Rightarrow> val result" where
  "trigger call target type k s =
     (case targetMap s target of
        None \<Rightarrow> void s
      | Some depsMap \<Rightarrow>
          (case resolve s target depsMap type k of
             (effects, computedRunners) \<Rightarrow>
               and_then (forEach_run call computedRunners s) (\<lambda>_. forEach_run call effects)))"

section \<open>computed\<close>

text \<open>
  \<open>trackChildRun\<close>. The loop reads \<open>childRunner.deps.length\<close> at every iteration, and
  the list grows under it when the parent is the child itself.
\<close>

function trackChildRun_loop :: "nat \<Rightarrow> nat \<Rightarrow> nat \<Rightarrow> state \<Rightarrow> state" where
  "trackChildRun_loop childRunner parentRunner i s =
     (if i < length (deps (effectObjs s childRunner)) then
        (let dep = deps (effectObjs s childRunner) ! i in
         trackChildRun_loop childRunner parentRunner (Suc i)
           (if parentRunner \<notin> set (depObjs s dep) then subscribe parentRunner dep s else s))
      else s)"
  by pat_completeness auto

definition trackChildRun :: "nat \<Rightarrow> state \<Rightarrow> state" where
  "trackChildRun childRunner s =
     (if activeReactiveEffectStack s = [] then s
      else trackChildRun_loop childRunner (last (activeReactiveEffectStack s)) 0 s)"

text \<open>The argument of \<open>computed\<close>: a getter, or an object with \<open>get\<close> and \<open>set\<close>. A getter
  may itself be an effect (\<open>Inl\<close>), as for \<open>effect\<close>.\<close>

datatype getterOrOptions = Getter "nat + fn" | Options "nat + fn" fn

definition isFunction :: "getterOrOptions \<Rightarrow> bool" where
  "isFunction g = (case g of Getter _ \<Rightarrow> True | Options _ _ \<Rightarrow> False)"

text \<open>\<open>computed\<close> returns the identity of the new ref, whose closure variables \<open>dirty\<close> and
  \<open>value\<close> start as \<open>true\<close> and \<open>undefined\<close>.\<close>

definition computed :: "call \<Rightarrow> getterOrOptions \<Rightarrow> state \<Rightarrow> nat result" where
  "computed call g s =
     (let isReadonly = isFunction g;
          getter = (case g of Getter f \<Rightarrow> f | Options f _ \<Rightarrow> f);
          setter = (case g of Getter _ \<Rightarrow> ReadonlySetter | Options _ f \<Rightarrow> f);
          c = nextComputed s
      in and_then
           (effect call getter
              \<lparr>opt_lazy = True, opt_computed = True, opt_scheduler = Some (Invalidate c),
               opt_onTrack = None, opt_onTrigger = None, opt_onStop = None\<rparr> s)
           (\<lambda>runner s1.
              Some (Returned c,
                    s1\<lparr>computedObjs := (computedObjs s1)(c :=
                          \<lparr>dirty = True, cached = Undefined, runner = runner, setter = setter\<rparr>),
                       nextComputed := Suc c\<rparr>)))"

text \<open>The accessor \<open>get value()\<close>.\<close>

definition get_value :: "call \<Rightarrow> nat \<Rightarrow> state \<Rightarrow> val result" where
  "get_value call c s =
     and_then
       (if dirty (computedObjs s c) then
          and_then (run call (runner (computedObjs s c)) s)
            (\<lambda>v s1. void (upd_computed c (\<lambda>r. r\<lparr>cached := v, dirty := False\<rparr>) s1))
        else void s)
       (\<lambda>_ s2. let s3 = trackChildRun (runner (computedObjs s2 c)) s2
               in Some (Returned (cached (computedObjs s3 c)), s3))"

text \<open>The accessor \<open>set value(newValue)\<close>.\<close>

definition set_value :: "call \<Rightarrow> nat \<Rightarrow> val \<Rightarrow> state \<Rightarrow> val result" where
  "set_value call c newValue s =
     and_then (call (setter (computedObjs s c)) newValue s) (\<lambda>_. void)"

section \<open>Running user code\<close>

fun exec_cmd :: "call \<Rightarrow> cmd \<Rightarrow> val \<Rightarrow> state \<Rightarrow> val result" where
  "exec_cmd call (Const v) acc s = Some (Returned v, s)"
| "exec_cmd call (Load x) acc s = Some (Returned (mem s x), s)"
| "exec_cmd call (Store x) acc s = Some (Returned acc, s\<lparr>mem := (mem s)(x := acc)\<rparr>)"
| "exec_cmd call Emit acc s = Some (Returned acc, s\<lparr>emitted := emitted s @ [acc]\<rparr>)"
| "exec_cmd call (Track target type k) acc s =
     and_then (track call target type k s) (\<lambda>_ s'. Some (Returned acc, s'))"
| "exec_cmd call (Trigger target type k) acc s =
     and_then (trigger call target type k s) (\<lambda>_ s'. Some (Returned acc, s'))"
| "exec_cmd call (Invoke e) acc s = run call e s"
| "exec_cmd call (Stop e) acc s =
     and_then (stop call e s) (\<lambda>_ s'. Some (Returned acc, s'))"
| "exec_cmd call (GetValue c) acc s = get_value call c s"
| "exec_cmd call (SetValue c) acc s =
     and_then (set_value call c acc s) (\<lambda>_ s'. Some (Returned acc, s'))"
| "exec_cmd call PauseTracking acc s = Some (Returned acc, pauseTracking s)"
| "exec_cmd call ResumeTracking acc s = Some (Returned acc, resumeTracking s)"
| "exec_cmd call ThrowAcc acc s = Some (Thrown acc, s)"

fun exec_body :: "call \<Rightarrow> cmd list \<Rightarrow> val \<Rightarrow> state \<Rightarrow> val result" where
  "exec_body call [] acc s = Some (Returned acc, s)"
| "exec_body call (c # cs) acc s = and_then (exec_cmd call c acc s) (exec_body call cs)"

definition apply_fn :: "call \<Rightarrow> fn \<Rightarrow> val \<Rightarrow> state \<Rightarrow> val result" where
  "apply_fn call f arg s =
     (case f of
        Code body \<Rightarrow> exec_body call body arg s
      | Invalidate c \<Rightarrow> void (upd_computed c (\<lambda>r. r\<lparr>dirty := True\<rparr>) s)
      | ReadonlySetter \<Rightarrow> void s)"

text \<open>Calls nested at most \<open>n\<close> deep; a deeper nesting does not return.\<close>

fun callN :: "nat \<Rightarrow> call" where
  "callN 0 f arg s = None"
| "callN (Suc n) f arg s = apply_fn (callN n) f arg s"

section \<open>reactive.ts\<close>

text \<open>\<open>WeakMap.has\<close>, \<open>WeakMap.get\<close> and \<open>WeakSet.has\<close>; only objects are keys.\<close>

definition weak_has :: "(nat \<rightharpoonup> val) \<Rightarrow> val \<Rightarrow> bool" where
  "weak_has m v = (case v of Obj a \<Rightarrow> m a \<noteq> None | _ \<Rightarrow> False)"

definition weak_get :: "(nat \<rightharpoonup> val) \<Rightarrow> val \<Rightarrow> val" where
  "weak_get m v =
     (case v of Obj a \<Rightarrow> (case m a of Some x \<Rightarrow> x | None \<Rightarrow> Undefined) | _ \<Rightarrow> Undefined)"

definition weakset_has :: "nat set \<Rightarrow> val \<Rightarrow> bool" where
  "weakset_has m v = (case v of Obj a \<Rightarrow> a \<in> m | _ \<Rightarrow> False)"

text \<open>\<open>isObject\<close> of \<open>@vue/shared\<close> (\<open>val !== null && typeof val === 'object'\<close>).\<close>

definition isObject :: "val \<Rightarrow> bool" where
  "isObject v = (case v of Obj _ \<Rightarrow> True | _ \<Rightarrow> False)"

definition observableValueRE_test :: "string \<Rightarrow> bool" where
  "observableValueRE_test str =
     (str \<in> set [''[object Object]'', ''[object Array]'', ''[object Map]'', ''[object Set]'',
                  ''[object WeakMap]'', ''[object WeakSet]''])"

definition canObserve :: "state \<Rightarrow> nat \<Rightarrow> bool" where
  "canObserve s a =
     (\<not> isVue (objs s a) \<and> \<not> isVNode (objs s a) \<and>
      observableValueRE_test (typeString (objs s a)) \<and> a \<notin> nonReactiveValues s)"

text \<open>
  \<open>createReactiveObject\<close>. The two WeakMaps are passed as the selector and the update
  function of the state field that holds them. \<open>new Proxy\<close> allocates the next object; what
  the code reads of a proxy is what it reads of its target.
\<close>

definition createReactiveObject ::
  "val \<Rightarrow> (state \<Rightarrow> nat \<rightharpoonup> val) \<Rightarrow> (((nat \<rightharpoonup> val) \<Rightarrow> (nat \<rightharpoonup> val)) \<Rightarrow> state \<Rightarrow> state) \<Rightarrow>
   (state \<Rightarrow> nat \<rightharpoonup> val) \<Rightarrow> (((nat \<rightharpoonup> val) \<Rightarrow> (nat \<rightharpoonup> val)) \<Rightarrow> state \<Rightarrow> state) \<Rightarrow>
   handlers \<Rightarrow> handlers \<Rightarrow> state \<Rightarrow> val \<times> state" where
  "createReactiveObject target toProxy toProxy_upd toRaw toRaw_upd baseHandlers collectionHandlers s =
     (case target of
        Obj a \<Rightarrow>
          (let observed = weak_get (toProxy s) target in
           if observed \<noteq> Undefined then (observed, s)
           else if weak_has (toRaw s) target then (target, s)
           else if \<not> canObserve s a then (target, s)
           else
             (let hs = (if ctorIsCollection (objs s a) then collectionHandlers else baseHandlers);
                  p = nextObj s;
                  s1 = s\<lparr>proxies := (proxies s)(p \<mapsto> (a, hs)),
                         objs := (objs s)(p := objs s a),
                         nextObj := Suc p\<rparr>;
                  s2 = toProxy_upd (\<lambda>m. m(a \<mapsto> Obj p)) s1;
                  s3 = toRaw_upd (\<lambda>m. m(p \<mapsto> target)) s2;
                  s4 = (if targetMap s3 a = None
                        then s3\<lparr>targetMap := (targetMap s3)(a \<mapsto> [])\<rparr> else s3)
              in (Obj p, s4)))
      | _ \<Rightarrow>
          (target,
           if DEV s
           then s\<lparr>console := console s @ [Warn ''value cannot be made reactive: '' target]\<rparr>
           else s))"

definition readonly :: "val \<Rightarrow> state \<Rightarrow> val \<times> state" where
  "readonly target s =
     (let target' = (if weak_has (reactiveToRaw s) target
                     then weak_get (reactiveToRaw s) target else target)
      in createReactiveObject target' rawToReadonly rawToReadonly_update
           readonlyToRaw readonlyToRaw_update readonlyHandlers readonlyCollectionHandlers s)"

definition reactive :: "val \<Rightarrow> state \<Rightarrow> val \<times> state" where
  "reactive target s =
     (if weak_has (readonlyToRaw s) target then (target, s)
      else if weakset_has (readonlyValues s) target then readonly target s
      else createReactiveObject target rawToReactive rawToReactive_update
             reactiveToRaw reactiveToRaw_update mutableHandlers mutableCollectionHandlers s)"

definition isReactive :: "state \<Rightarrow> val \<Rightarrow> bool" where
  "isReactive s v = (weak_has (reactiveToRaw s) v \<or> weak_has (readonlyToRaw s) v)"

definition isReadonly :: "state \<Rightarrow> val \<Rightarrow> bool" where
  "isReadonly s v = weak_has (readonlyToRaw s) v"

text \<open>\<open>markReadonly\<close> and \<open>markNonReactive\<close> on an object (\<open>WeakSet.add\<close> accepts nothing
  else).\<close>

definition markReadonly :: "nat \<Rightarrow> state \<Rightarrow> val \<times> state" where
  "markReadonly a s = (Obj a, s\<lparr>readonlyValues := insert a (readonlyValues s)\<rparr>)"

definition markNonReactive :: "nat \<Rightarrow> state \<Rightarrow> val \<times> state" where
  "markNonReactive a s = (Obj a, s\<lparr>nonReactiveValues := insert a (nonReactiveValues s)\<rparr>)"

section \<open>The initial state\<close>

text \<open>The state of the freshly loaded modules, in a program that has so far created the
  objects \<open>0, \<dots>, n - 1\<close> described by \<open>os\<close>; \<open>dev\<close> is the build flag \<open>__DEV__\<close>.\<close>

definition no_effect :: ReactiveEffect where
  "no_effect = \<lparr>active = False, raw = Code [], deps = [], is_computed = False,
                scheduler = None, onTrack = None, onTrigger = None, onStop = None\<rparr>"

definition no_computed :: ComputedRef where
  "no_computed = \<lparr>dirty = True, cached = Undefined, runner = 0, setter = ReadonlySetter\<rparr>"

definition init :: "bool \<Rightarrow> (nat \<Rightarrow> objinfo) \<Rightarrow> nat \<Rightarrow> state" where
  "init dev os n =
     \<lparr>targetMap = Map.empty, depObjs = (\<lambda>_. []), nextDep = 0,
      effectObjs = (\<lambda>_. no_effect), nextEffect = 0,
      activeReactiveEffectStack = [], shouldTrack = True,
      computedObjs = (\<lambda>_. no_computed), nextComputed = 0,
      mem = (\<lambda>_. Undefined), emitted = [], DEV = dev, console = [],
      rawToReactive = Map.empty, reactiveToRaw = Map.empty,
      rawToReadonly = Map.empty, readonlyToRaw = Map.empty,
      readonlyValues = {}, nonReactiveValues = {},
      objs = os, proxies = Map.empty, nextObj = n\<rparr>"

text \<open>\<open>EMPTY_OBJ\<close> of \<open>@vue/shared\<close>, the default \<open>options\<close> of \<open>effect\<close>: no field is set.\<close>

definition EMPTY_OBJ :: ReactiveEffectOptions where
  "EMPTY_OBJ = \<lparr>opt_lazy = False, opt_computed = False, opt_scheduler = None,
                 opt_onTrack = None, opt_onTrigger = None, opt_onStop = None\<rparr>"

definition plain_object :: objinfo where
  "plain_object = \<lparr>isVue = False, isVNode = False, typeString = ''[object Object]'',
                   isArray = False, ctorIsCollection = False\<rparr>"

section \<open>Properties of states and of runs\<close>

text \<open>A set that the program can reach: it is registered for some key of some object,
  or it is in the \<open>deps\<close> of some effect.\<close>

definition known_dep :: "state \<Rightarrow> nat \<Rightarrow> bool" where
  "known_dep s d =
     ((\<exists>t m k. targetMap s t = Some m \<and> map_of m k = Some d) \<or>
      (\<exists>c. d \<in> set (deps (effectObjs s c))))"

text \<open>Code whose reads of derived values are all of derived values allowed by \<open>B\<close>; a
  state is safe when every function it stores (effect functions, schedulers, callbacks,
  setters) is.\<close>

definition cmd_safe :: "(nat \<Rightarrow> bool) \<Rightarrow> cmd \<Rightarrow> bool" where
  "cmd_safe B x = (case x of GetValue c \<Rightarrow> B c | _ \<Rightarrow> True)"

definition fn_safe :: "(nat \<Rightarrow> bool) \<Rightarrow> fn \<Rightarrow> bool" where
  "fn_safe B f = (case f of Code xs \<Rightarrow> list_all (cmd_safe B) xs | _ \<Rightarrow> True)"

definition opt_safe :: "(nat \<Rightarrow> bool) \<Rightarrow> fn option \<Rightarrow> bool" where
  "opt_safe B fo = (case fo of None \<Rightarrow> True | Some f \<Rightarrow> fn_safe B f)"

definition code_safe :: "(nat \<Rightarrow> bool) \<Rightarrow> state \<Rightarrow> bool" where
  "code_safe B s =
     ((\<forall>e. fn_safe B (raw (effectObjs s e)) \<and> opt_safe B (scheduler (effectObjs s e)) \<and>
           opt_safe B (onTrack (effectObjs s e)) \<and> opt_safe B (onTrigger (effectObjs s e)) \<and>
           opt_safe B (onStop (effectObjs s e))) \<and>
      (\<forall>c. fn_safe B (setter (computedObjs s c))))"

text \<open>The effects in the two local sets of \<open>trigger\<close>, taken together.\<close>

definition runners :: "nat list \<times> nat list \<Rightarrow> nat set" where
  "runners r = set (fst r) \<union> set (snd r)"

text \<open>
  User code under a guard: a command is executed only in a state in which the guard
  admits it, and a run that reaches a command the guard refuses does not return. Under the
  guard that admits everything this is \<open>callN\<close> (\<open>callG_top\<close> below), and a guarded run
  that returns is a run of the program with the same result (\<open>callG_callN\<close> below): the
  guard only selects runs.
\<close>

definition exec_cmd_g :: "(state \<Rightarrow> cmd \<Rightarrow> bool) \<Rightarrow> call \<Rightarrow> cmd \<Rightarrow> val \<Rightarrow> state \<Rightarrow> val result" where
  "exec_cmd_g g call x acc s = (if g s x then exec_cmd call x acc s else None)"

fun exec_body_g :: "(state \<Rightarrow> cmd \<Rightarrow> bool) \<Rightarrow> call \<Rightarrow> cmd list \<Rightarrow> val \<Rightarrow> state \<Rightarrow> val result" where
  "exec_body_g g call [] acc s = Some (Returned acc, s)"
| "exec_body_g g call (c # cs) acc s = and_then (exec_cmd_g g call c acc s) (exec_body_g g call cs)"

definition apply_fn_g :: "(state \<Rightarrow> cmd \<Rightarrow> bool) \<Rightarrow> call \<Rightarrow> fn \<Rightarrow> val \<Rightarrow> state \<Rightarrow> val result" where
  "apply_fn_g g call f arg s =
     (case f of
        Code body \<Rightarrow> exec_body_g g call body arg s
      | _ \<Rightarrow> apply_fn call f arg s)"

fun callG :: "(state \<Rightarrow> cmd \<Rightarrow> bool) \<Rightarrow> nat \<Rightarrow> call" where
  "callG g 0 f arg s = None"
| "callG g (Suc n) f arg s = apply_fn_g g (callG g n) f arg s"


text \<open>The functions that \<open>scheduleRun\<close> calls for an effect, its \<open>onTrigger\<close> callback and
  its scheduler, are among the functions \<open>F\<close>.\<close>

definition sched_ok :: "(fn \<Rightarrow> bool) \<Rightarrow> state \<Rightarrow> nat \<Rightarrow> bool" where
  "sched_ok F s e =
     ((\<forall>f. onTrigger (effectObjs s e) = Some f \<longrightarrow> F f) \<and>
      (\<forall>f. scheduler (effectObjs s e) = Some f \<longrightarrow> F f))"

text \<open>
  A relation \<open>R\<close> between the state before and the state after is stable when it is
  reflexive and transitive and holds across each single state change that the library
  makes: \<open>cleanup\<close>; the push, computation and pop of \<open>run\<close> taken together; creating a
  key map or a set; subscribing the effect on top of the stack to a reachable set;
  clearing \<open>active\<close>; the run of the getter of a dirty derived value followed by storing
  its value and clearing \<open>dirty\<close>; setting \<open>dirty\<close>; and the changes user code makes to
  the tracking flag and to its own variables. It is stable for the functions \<open>F\<close>, made of
  the commands \<open>K\<close>, in the states \<open>C\<close> under the guard \<open>g\<close>: the states \<open>C\<close> store
  functions of \<open>F\<close> only as effect functions, \<open>onTrack\<close> and \<open>onStop\<close> callbacks and
  setters; a trigger that the guard admits schedules only effects whose scheduler and
  \<open>onTrigger\<close> callback are in \<open>F\<close>; only the derived values whose read is a command of \<open>K\<close>
  are read, and only the schedulers of derived values that are in \<open>F\<close> are called. Such a
  relation then holds across every call of a function of \<open>F\<close> (\<open>stable_callG\<close> below).
\<close>

definition stable ::
  "(state \<Rightarrow> state \<Rightarrow> bool) \<Rightarrow> (fn \<Rightarrow> bool) \<Rightarrow> (cmd \<Rightarrow> bool) \<Rightarrow> (state \<Rightarrow> bool) \<Rightarrow>
   (state \<Rightarrow> cmd \<Rightarrow> bool) \<Rightarrow> bool" where
  "stable R F K C g =
     ((\<forall>s. R s s) \<and>
      (\<forall>s s' s''. R s s' \<longrightarrow> R s' s'' \<longrightarrow> R s s'') \<and>
      (\<forall>s s'. R s s' \<longrightarrow> C s \<longrightarrow> C s') \<and>
      (\<forall>s e. C s \<longrightarrow> C (push e s)) \<and>
      (\<forall>s s' e. R s s' \<longrightarrow> C s \<longrightarrow> sched_ok F s e \<longrightarrow> sched_ok F s' e) \<and>
      (\<forall>xs. F (Code xs) \<longrightarrow> list_all K xs) \<and>
      (\<forall>s e. C s \<longrightarrow> F (raw (effectObjs s e))) \<and>
      (\<forall>s e f. C s \<longrightarrow> onTrack (effectObjs s e) = Some f \<longrightarrow> F f) \<and>
      (\<forall>s e f. C s \<longrightarrow> onStop (effectObjs s e) = Some f \<longrightarrow> F f) \<and>
      (\<forall>s c. C s \<longrightarrow> F (setter (computedObjs s c))) \<and>
      (\<forall>s t ty k m e. C s \<longrightarrow> K (Trigger t ty k) \<longrightarrow> g s (Trigger t ty k) \<longrightarrow>
          targetMap s t = Some m \<longrightarrow> e \<in> runners (resolve s t m ty k) \<longrightarrow> sched_ok F s e) \<and>
      (\<forall>s e. R s (cleanup e s)) \<and>
      (\<forall>s e s1. active (effectObjs s e) \<longrightarrow> e \<notin> set (activeReactiveEffectStack s) \<longrightarrow>
          R (push e (cleanup e s)) s1 \<longrightarrow> R s (pop s1)) \<and>
      (\<forall>s t. R s (snd (get_depsMap t s))) \<and>
      (\<forall>s t m k. targetMap s t = Some m \<longrightarrow> R s (snd (get_dep t m k s))) \<and>
      (\<forall>s d. known_dep s d \<longrightarrow> activeReactiveEffectStack s \<noteq> [] \<longrightarrow>
          last (activeReactiveEffectStack s) \<notin> set (depObjs s d) \<longrightarrow>
          R s (subscribe (last (activeReactiveEffectStack s)) d s)) \<and>
      (\<forall>s e. R s (upd_effect e (\<lambda>r. r\<lparr>active := False\<rparr>) s)) \<and>
      (\<forall>s s1 c v. K (GetValue c) \<longrightarrow> dirty (computedObjs s c) \<longrightarrow> R s s1 \<longrightarrow>
          R s (upd_computed c (\<lambda>r. r\<lparr>cached := v, dirty := False\<rparr>) s1)) \<and>
      (\<forall>s c. F (Invalidate c) \<longrightarrow> R s (upd_computed c (\<lambda>r. r\<lparr>dirty := True\<rparr>) s)) \<and>
      (\<forall>s b. R s (s\<lparr>shouldTrack := b\<rparr>)) \<and>
      (\<forall>s m. R s (s\<lparr>mem := m\<rparr>)) \<and>
      (\<forall>s x. R s (s\<lparr>emitted := x\<rparr>)))"

definition call_ok :: "(state \<Rightarrow> state \<Rightarrow> bool) \<Rightarrow> (fn \<Rightarrow> bool) \<Rightarrow> (state \<Rightarrow> bool) \<Rightarrow> call \<Rightarrow> bool" where
  "call_ok R F C call =
     (\<forall>f a s c s'. F f \<longrightarrow> C s \<longrightarrow> call f a s = Some (c, s') \<longrightarrow> R s s')"

text \<open>The case of code restricted only in the derived values it reads (those allowed by
  \<open>B\<close>), with no guard.\<close>

abbreviation stable_for :: "(state \<Rightarrow> state \<Rightarrow> bool) \<Rightarrow> (nat \<Rightarrow> bool) \<Rightarrow> bool" where
  "stable_for R B \<equiv> stable R (fn_safe B) (cmd_safe B) (code_safe B) (\<lambda>_ _. True)"

text \<open>The relations and state predicates of the claims: the stack is unchanged; the
  subscriber sets and the \<open>deps\<close> lists agree (\<open>graph_inv\<close>, which also says that sets are
  allocated in order: unallocated sets are empty and registered ones are allocated); an
  effect is inactive, off the stack and in no set (\<open>quiet\<close>); no stored function has
  changed and a dirty derived value is still dirty.\<close>

definition same_stack :: "state \<Rightarrow> state \<Rightarrow> bool" where
  "same_stack s s' = (activeReactiveEffectStack s' = activeReactiveEffectStack s)"

definition graph_inv :: "state \<Rightarrow> bool" where
  "graph_inv s =
     ((\<forall>e d. e \<in> set (depObjs s d) \<longleftrightarrow> d \<in> set (deps (effectObjs s e))) \<and>
      (\<forall>d. nextDep s \<le> d \<longrightarrow> depObjs s d = []) \<and>
      (\<forall>t m k d. targetMap s t = Some m \<longrightarrow> (k, d) \<in> set m \<longrightarrow> d < nextDep s))"

definition keeps_graph_inv :: "state \<Rightarrow> state \<Rightarrow> bool" where
  "keeps_graph_inv s s' = (graph_inv s \<longrightarrow> graph_inv s')"





text \<open>The entries of the child's list, from index \<open>i\<close> on, whose set the parent is
  missing from.\<close>

definition pending :: "nat \<Rightarrow> nat \<Rightarrow> nat \<Rightarrow> state \<Rightarrow> nat set" where
  "pending c p i s =
     {j. i \<le> j \<and> j < length (deps (effectObjs s c)) \<and>
         p \<notin> set (depObjs s (deps (effectObjs s c) ! j))}"

text \<open>An effect that emits and returns 7, created and pushed on the stack: the state in
  which its own function calls the effect again.\<close>

definition self_call_state :: state where
  "self_call_state =
     push 0 (snd (createReactiveEffect (Code [Const (Num 7), Emit]) EMPTY_OBJ
                    (init False (\<lambda>_. plain_object) 0)))"

text \<open>An effect whose function throws 1, created and not yet run.\<close>

definition throwing_state :: state where
  "throwing_state =
     snd (createReactiveEffect (Code [Const (Num 1), ThrowAcc]) EMPTY_OBJ
            (init False (\<lambda>_. plain_object) 0))"

text \<open>What a test sees of a run: how it completed and what user code emitted.\<close>

definition observe :: "'a result \<Rightarrow> ('a completion \<times> val list) option" where
  "observe r = map_option (\<lambda>(c, s). (c, emitted s)) r"

definition final_state :: "'a result \<Rightarrow> state" where
  "final_state r = snd (the r)"

text \<open>An effect function that reads key \<open>k\<close> of object 0 while tracking is paused.\<close>

definition paused_read :: "cmd list" where
  "paused_read =
     [PauseTracking, Track 0 GET (Some (KStr ''k'')), ResumeTracking, Const (Num 1), Emit]"

text \<open>The subscribers that the spec has \<open>trigger\<close> resolve, in the spec's words: for
  \<open>CLEAR\<close> the union of every set registered for the object; otherwise the set of the
  exact key when a key was supplied, and for \<open>ADD\<close> or \<open>DELETE\<close> also the set of the key
  \<open>length\<close> when the object is an array, else of the iteration key.\<close>

definition subscribers_of :: "state \<Rightarrow> (key option \<times> nat) list \<Rightarrow> key option \<Rightarrow> nat set" where
  "subscribers_of s depsMap k =
     (case map_of depsMap k of None \<Rightarrow> {} | Some dep \<Rightarrow> set (depObjs s dep))"

definition spec_subscribers ::
  "state \<Rightarrow> nat \<Rightarrow> (key option \<times> nat) list \<Rightarrow> OperationTypes \<Rightarrow> key option \<Rightarrow> nat set" where
  "spec_subscribers s target depsMap type k =
     (if type = CLEAR then (\<Union>dep \<in> snd ` set depsMap. set (depObjs s dep))
      else
        (case k of None \<Rightarrow> {} | Some _ \<Rightarrow> subscribers_of s depsMap k) \<union>
        (if type = ADD \<or> type = DELETE
         then subscribers_of s depsMap
                (Some (if isArray (objs s target) then KStr ''length'' else ITERATE_KEY))
         else {}))"

text \<open>What the scheduler of a derived value does when \<open>trigger\<close> calls it, and the
  effects that are runners of derived values as \<open>computed\<close> creates them (the scheduler
  that sets \<open>dirty\<close>, no \<open>onTrigger\<close> callback).\<close>

definition invalidate :: "nat \<Rightarrow> state \<Rightarrow> state" where
  "invalidate e s =
     (case scheduler (effectObjs s e) of
        Some (Invalidate c) \<Rightarrow> upd_computed c (\<lambda>r. r\<lparr>dirty := True\<rparr>) s
      | _ \<Rightarrow> s)"

definition is_derived :: "state \<Rightarrow> nat \<Rightarrow> bool" where
  "is_derived s e =
     (case scheduler (effectObjs s e) of
        Some (Invalidate c) \<Rightarrow> onTrigger (effectObjs s e) = None
      | _ \<Rightarrow> False)"


text \<open>An effect that reads key \<open>k\<close> of object 0, created and not yet run; and the
  state after creating an effect that reads key \<open>k\<close> of object 0 and iterates it.\<close>

definition reader_state :: state where
  "reader_state =
     snd (createReactiveEffect (Code [Track 0 GET (Some (KStr ''k''))]) EMPTY_OBJ
            (init False (\<lambda>_. plain_object) 1))"

definition subscribed_state :: state where
  "subscribed_state =
     final_state (effect (callN 1)
        (Inr (Code [Track 0 GET (Some (KStr ''k'')), Track 0 ITERATE None])) EMPTY_OBJ
        (init False (\<lambda>_. plain_object) 2))"



text \<open>A read-only derived value (built from a getter alone) in a development build.\<close>

definition readonly_computed_state :: state where
  "readonly_computed_state =
     final_state (computed (callN 1) (Getter (Inr (Code [Const (Num 1)])))
                    (init True (\<lambda>_. plain_object) 0))"




text \<open>The two WeakMaps of \<open>reactive\<close> in the states the program reaches: no proxy is
  itself a key of \<open>rawToReactive\<close>, objects that do not exist yet are in neither map, and
  \<open>reactiveToRaw\<close> maps to existing objects.\<close>

definition reactive_wf :: "state \<Rightarrow> bool" where
  "reactive_wf s =
     ((\<forall>p. reactiveToRaw s p \<noteq> None \<longrightarrow> rawToReactive s p = None) \<and>
      (\<forall>a. nextObj s \<le> a \<longrightarrow> rawToReactive s a = None \<and> reactiveToRaw s a = None) \<and>
      (\<forall>p v. reactiveToRaw s p = Some v \<longrightarrow> (\<exists>a. v = Obj a \<and> a < nextObj s)))"

text \<open>The state after \<open>p = reactive(o)\<close> for the one object \<open>o\<close> (object 0, so that \<open>p\<close> is
  object 1) and \<open>markReadonly(p)\<close>.\<close>

definition marked_proxy_state :: state where
  "marked_proxy_state =
     snd (markReadonly 1 (snd (reactive (Obj 0) (init False (\<lambda>_. plain_object) 1))))"

text \<open>The state in which \<open>createReactiveObject\<close> returns the proxy it has created.\<close>

definition proxied ::
  "nat \<Rightarrow> (((nat \<rightharpoonup> val) \<Rightarrow> (nat \<rightharpoonup> val)) \<Rightarrow> state \<Rightarrow> state) \<Rightarrow>
   (((nat \<rightharpoonup> val) \<Rightarrow> (nat \<rightharpoonup> val)) \<Rightarrow> state \<Rightarrow> state) \<Rightarrow> handlers \<Rightarrow> state \<Rightarrow> state" where
  "proxied a toProxy_upd toRaw_upd hs s =
     (let p = nextObj s;
          s1 = s\<lparr>proxies := (proxies s)(p \<mapsto> (a, hs)),
                 objs := (objs s)(p := objs s a),
                 nextObj := Suc p\<rparr>;
          s2 = toProxy_upd (\<lambda>m. m(a \<mapsto> Obj p)) s1;
          s3 = toRaw_upd (\<lambda>m. m(p \<mapsto> Obj a)) s2
      in if targetMap s3 a = None then s3\<lparr>targetMap := (targetMap s3)(a \<mapsto> [])\<rparr> else s3)"











section \<open>Termination of the loop of trackChildRun\<close>

text \<open>Each iteration either moves on in a list of the same length, or
  subscribes the parent to a set it was missing from, which leaves fewer such entries.\<close>

lemma deps_subscribe:
  "deps (effectObjs (subscribe p d s) c) =
     (if c = p then deps (effectObjs s c) @ [d] else deps (effectObjs s c))"
  by (simp add: subscribe_def upd_effect_def upd_dep_def)

lemma depObjs_subscribe:
  "depObjs (subscribe p d s) d' = (if d' = d then set_add p (depObjs s d) else depObjs s d')"
  by (simp add: subscribe_def upd_effect_def upd_dep_def)

lemma finite_pending: "finite (pending c p i s)"
  by (simp add: pending_def)

lemma pending_skip: "pending c p (Suc i) s \<subseteq> pending c p i s"
  by (auto simp: pending_def)

lemma pending_subscribe:
  assumes "i < length (deps (effectObjs s c))"
    and "p \<notin> set (depObjs s (deps (effectObjs s c) ! i))"
  shows "pending c p (Suc i) (subscribe p (deps (effectObjs s c) ! i) s) \<subset> pending c p i s"
proof -
  let ?d = "deps (effectObjs s c) ! i"
  have mem: "i \<in> pending c p i s"
    using assms by (simp add: pending_def)
  have notin: "i \<notin> pending c p (Suc i) (subscribe p ?d s)"
    by (simp add: pending_def)
  have sub: "pending c p (Suc i) (subscribe p ?d s) \<subseteq> pending c p i s"
  proof
    fix j
    assume "j \<in> pending c p (Suc i) (subscribe p ?d s)"
    then show "j \<in> pending c p i s"
      by (auto simp: pending_def deps_subscribe depObjs_subscribe set_add_def nth_append
               split: if_splits)
  qed
  from mem notin sub show ?thesis by blast
qed

termination trackChildRun_loop
proof (relation "measure (\<lambda>(c, p, i, s).
         2 * card (pending c p i s) + (length (deps (effectObjs s c)) - i))", goal_cases)
  case 1
  show ?case by simp
next
  case (2 c p i s x)
  show ?case
  proof (cases "p \<in> set (depObjs s x)")
    case True
    have "card (pending c p (Suc i) s) \<le> card (pending c p i s)"
      by (rule card_mono[OF finite_pending pending_skip])
    with 2 True show ?thesis by simp
  next
    case False
    have "card (pending c p (Suc i) (subscribe p x s)) < card (pending c p i s)"
      using pending_subscribe[of i s c p] 2 False
      by (simp add: psubset_card_mono[OF finite_pending])
    moreover have "length (deps (effectObjs (subscribe p x s) c))
        \<le> Suc (length (deps (effectObjs s c)))"
      by (simp add: deps_subscribe)
    ultimately show ?thesis using 2 False by simp
  qed
qed

declare trackChildRun_loop.simps [simp del]

section \<open>Basic facts\<close>

lemma and_then_Some:
  "and_then r k = Some (c, s') \<longleftrightarrow>
     (\<exists>x. r = Some (Thrown x, s') \<and> c = Thrown x) \<or>
     (\<exists>v s1. r = Some (Returned v, s1) \<and> k v s1 = Some (c, s'))"
  by (auto simp: and_then_def split: option.splits prod.splits completion.splits)

lemma cleanup_fold:
  "fold (\<lambda>d. upd_dep d (set_delete e)) ds s =
     s\<lparr>depObjs := (\<lambda>d. if d \<in> set ds then set_delete e (depObjs s d) else depObjs s d)\<rparr>"
proof (induction ds arbitrary: s)
  case Nil
  show ?case by simp
next
  case (Cons d ds)
  have "fold (\<lambda>d. upd_dep d (set_delete e)) (d # ds) s =
        fold (\<lambda>d. upd_dep d (set_delete e)) ds (upd_dep d (set_delete e) s)"
    by simp
  also have "\<dots> = (upd_dep d (set_delete e) s)\<lparr>depObjs :=
      (\<lambda>d'. if d' \<in> set ds then set_delete e (depObjs (upd_dep d (set_delete e) s) d')
             else depObjs (upd_dep d (set_delete e) s) d')\<rparr>"
    by (rule Cons.IH)
  also have "\<dots> = s\<lparr>depObjs := (\<lambda>d'. if d' \<in> set (d # ds) then set_delete e (depObjs s d')
                                      else depObjs s d')\<rparr>"
    by (simp add: upd_dep_def set_delete_def fun_eq_iff)
  finally show ?case .
qed

lemma cleanup_eq:
  "cleanup e s =
     s\<lparr>depObjs := (\<lambda>d. if d \<in> set (deps (effectObjs s e)) then set_delete e (depObjs s d)
                        else depObjs s d),
       effectObjs := (effectObjs s)(e := (effectObjs s e)\<lparr>deps := []\<rparr>)\<rparr>"
  by (simp add: cleanup_def Let_def cleanup_fold upd_effect_def fun_eq_iff)

lemma subscribe_eq:
  "subscribe e d s =
     s\<lparr>depObjs := (depObjs s)(d := set_add e (depObjs s d)),
       effectObjs := (effectObjs s)(e := (effectObjs s e)\<lparr>deps := deps (effectObjs s e) @ [d]\<rparr>)\<rparr>"
  by (simp add: subscribe_def upd_effect_def upd_dep_def)

lemma stable_refl: "stable R F K C g \<Longrightarrow> R s s"
  by (simp add: stable_def)

lemma stable_trans: "stable R F K C g \<Longrightarrow> R s s' \<Longrightarrow> R s' s'' \<Longrightarrow> R s s''"
  unfolding stable_def by meson

lemma stable_safe: "stable R F K C g \<Longrightarrow> R s s' \<Longrightarrow> C s \<Longrightarrow> C s'"
  unfolding stable_def by meson

lemma stable_push: "stable R F K C g \<Longrightarrow> C s \<Longrightarrow> C (push e s)"
  unfolding stable_def by meson

lemma stable_sched:
  "stable R F K C g \<Longrightarrow> R s s' \<Longrightarrow> C s \<Longrightarrow> sched_ok F s e \<Longrightarrow> sched_ok F s' e"
  unfolding stable_def by meson

lemma stable_code: "stable R F K C g \<Longrightarrow> F (Code xs) \<Longrightarrow> list_all K xs"
  unfolding stable_def by meson

lemma stable_raw: "stable R F K C g \<Longrightarrow> C s \<Longrightarrow> F (raw (effectObjs s e))"
  unfolding stable_def by meson

lemma stable_onTrack:
  "stable R F K C g \<Longrightarrow> C s \<Longrightarrow> onTrack (effectObjs s e) = Some f \<Longrightarrow> F f"
  unfolding stable_def by meson

lemma stable_onStop:
  "stable R F K C g \<Longrightarrow> C s \<Longrightarrow> onStop (effectObjs s e) = Some f \<Longrightarrow> F f"
  unfolding stable_def by meson

lemma stable_setter: "stable R F K C g \<Longrightarrow> C s \<Longrightarrow> F (setter (computedObjs s c))"
  unfolding stable_def by meson

lemma stable_resolved:
  "stable R F K C g \<Longrightarrow> C s \<Longrightarrow> K (Trigger t ty k) \<Longrightarrow> g s (Trigger t ty k) \<Longrightarrow>
   targetMap s t = Some m \<Longrightarrow> e \<in> runners (resolve s t m ty k) \<Longrightarrow> sched_ok F s e"
  unfolding stable_def by meson

lemma stable_cleanup: "stable R F K C g \<Longrightarrow> R s (cleanup e s)"
  by (simp add: stable_def)

lemma stable_bracket:
  "stable R F K C g \<Longrightarrow> active (effectObjs s e) \<Longrightarrow> e \<notin> set (activeReactiveEffectStack s) \<Longrightarrow>
   R (push e (cleanup e s)) s1 \<Longrightarrow> R s (pop s1)"
  unfolding stable_def by meson

lemma stable_get_depsMap: "stable R F K C g \<Longrightarrow> R s (snd (get_depsMap t s))"
  by (simp add: stable_def)

lemma stable_get_dep:
  "stable R F K C g \<Longrightarrow> targetMap s t = Some m \<Longrightarrow> R s (snd (get_dep t m k s))"
  unfolding stable_def by meson

lemma stable_subscribe:
  "stable R F K C g \<Longrightarrow> known_dep s d \<Longrightarrow> activeReactiveEffectStack s \<noteq> [] \<Longrightarrow>
   last (activeReactiveEffectStack s) \<notin> set (depObjs s d) \<Longrightarrow>
   R s (subscribe (last (activeReactiveEffectStack s)) d s)"
  unfolding stable_def by meson

lemma stable_deactivate: "stable R F K C g \<Longrightarrow> R s (upd_effect e (\<lambda>r. r\<lparr>active := False\<rparr>) s)"
  by (simp add: stable_def)

lemma stable_store:
  "stable R F K C g \<Longrightarrow> K (GetValue c) \<Longrightarrow> dirty (computedObjs s c) \<Longrightarrow> R s s1 \<Longrightarrow>
   R s (upd_computed c (\<lambda>r. r\<lparr>cached := v, dirty := False\<rparr>) s1)"
  unfolding stable_def by meson

lemma stable_invalidate:
  "stable R F K C g \<Longrightarrow> F (Invalidate c) \<Longrightarrow> R s (upd_computed c (\<lambda>r. r\<lparr>dirty := True\<rparr>) s)"
  unfolding stable_def by meson

lemma stable_shouldTrack: "stable R F K C g \<Longrightarrow> R s (s\<lparr>shouldTrack := b\<rparr>)"
  by (simp add: stable_def)

lemma stable_mem: "stable R F K C g \<Longrightarrow> R s (s\<lparr>mem := m\<rparr>)"
  by (simp add: stable_def)

lemma stable_emitted: "stable R F K C g \<Longrightarrow> R s (s\<lparr>emitted := x\<rparr>)"
  by (simp add: stable_def)

lemma call_okD:
  "call_ok R F C call \<Longrightarrow> F f \<Longrightarrow> C s \<Longrightarrow> call f a s = Some (c, s') \<Longrightarrow> R s s'"
  unfolding call_ok_def by blast

lemma sched_ok_onTrigger: "sched_ok F s e \<Longrightarrow> onTrigger (effectObjs s e) = Some f \<Longrightarrow> F f"
  by (simp add: sched_ok_def)

lemma sched_ok_scheduler: "sched_ok F s e \<Longrightarrow> scheduler (effectObjs s e) = Some f \<Longrightarrow> F f"
  by (simp add: sched_ok_def)

lemma stable_run:
  assumes st: "stable R F K C g" and ok: "call_ok R F C call" and cs: "C s"
    and r: "run call e s = Some (c, s')"
  shows "R s s'"
proof (cases "active (effectObjs s e)")
  case False
  with r have "call (raw (effectObjs s e)) Undefined s = Some (c, s')"
    by (simp add: run_def)
  then show ?thesis by (rule call_okD[OF ok stable_raw[OF st cs] cs])
next
  case True
  show ?thesis
  proof (cases "e \<in> set (activeReactiveEffectStack s)")
    case True
    with \<open>active (effectObjs s e)\<close> r have "s' = s" by (simp add: run_def)
    then show ?thesis by (simp add: stable_refl[OF st])
  next
    case False
    with True r obtain s3 where
      c: "call (raw (effectObjs s e)) Undefined (push e (cleanup e s)) = Some (c, s3)"
      and s': "s' = pop s3"
      by (auto simp: run_def split: option.splits)
    have "C (push e (cleanup e s))"
      by (rule stable_push[OF st stable_safe[OF st stable_cleanup[OF st] cs]])
    from call_okD[OF ok stable_raw[OF st cs] this c] have "R (push e (cleanup e s)) s3" .
    from stable_bracket[OF st True False this] show ?thesis by (simp add: s')
  qed
qed

lemma get_depsMap_targetMap:
  "get_depsMap t s = (m, s1) \<Longrightarrow> targetMap s1 t = Some m"
  by (auto simp: get_depsMap_def split: option.splits)

lemma get_depsMap_stack:
  "activeReactiveEffectStack (snd (get_depsMap t s)) = activeReactiveEffectStack s"
  by (simp add: get_depsMap_def split: option.splits)

lemma get_dep_stack:
  "activeReactiveEffectStack (snd (get_dep t m k s)) = activeReactiveEffectStack s"
  by (simp add: get_dep_def Let_def split: option.splits)

lemma get_dep_known:
  assumes "targetMap s t = Some m" and "get_dep t m k s = (d, s2)"
  shows "known_dep s2 d"
proof (cases "map_of m k")
  case None
  with assms have "targetMap s2 t = Some (m @ [(k, d)])"
    by (auto simp: get_dep_def Let_def)
  moreover from None have "map_of (m @ [(k, d)]) k = Some d"
    by (simp add: map_add_def)
  ultimately show ?thesis unfolding known_dep_def by blast
next
  case (Some d')
  with assms have "s2 = s" "d = d'" by (auto simp: get_dep_def)
  with assms Some show ?thesis unfolding known_dep_def by blast
qed

lemma subscribe_frame:
  "activeReactiveEffectStack (subscribe e d s) = activeReactiveEffectStack s"
  "DEV (subscribe e d s) = DEV s"
  by (simp_all add: subscribe_eq)

lemma track_unfold:
  assumes "shouldTrack s" and "activeReactiveEffectStack s \<noteq> []"
    and "get_depsMap t s = (m, s1)"
    and "get_dep t m (if ty = ITERATE then Some ITERATE_KEY else k) s1 = (d, s2)"
  shows "track call t ty k s =
     (if last (activeReactiveEffectStack s) \<notin> set (depObjs s2 d) then
        (if DEV (subscribe (last (activeReactiveEffectStack s)) d s2) then
           (case onTrack (effectObjs (subscribe (last (activeReactiveEffectStack s)) d s2)
                            (last (activeReactiveEffectStack s))) of
              Some f \<Rightarrow>
                and_then (call f Undefined (subscribe (last (activeReactiveEffectStack s)) d s2))
                  (\<lambda>_. void)
            | None \<Rightarrow> void (subscribe (last (activeReactiveEffectStack s)) d s2))
         else void (subscribe (last (activeReactiveEffectStack s)) d s2))
      else void s2)"
  using assms by (simp add: track_def Let_def)

lemma stable_track:
  assumes st: "stable R F K C g" and ok: "call_ok R F C call" and cs: "C s"
    and r: "track call t ty k s = Some (c, s')"
  shows "R s s'"
proof (cases "\<not> shouldTrack s \<or> activeReactiveEffectStack s = []")
  case True
  with r have "s' = s" by (auto simp: track_def void_def split: if_splits)
  then show ?thesis by (simp add: stable_refl[OF st])
next
  case False
  then have tr: "shouldTrack s" and ne: "activeReactiveEffectStack s \<noteq> []" by auto
  let ?k = "if ty = ITERATE then Some ITERATE_KEY else k"
  let ?e = "last (activeReactiveEffectStack s)"
  obtain m s1 where g1: "get_depsMap t s = (m, s1)" by (cases "get_depsMap t s") auto
  obtain d s2 where g2: "get_dep t m ?k s1 = (d, s2)" by (cases "get_dep t m ?k s1") auto
  have tm: "targetMap s1 t = Some m" by (rule get_depsMap_targetMap[OF g1])
  have R1: "R s s1" using stable_get_depsMap[OF st, of s t] g1 by simp
  have R2: "R s1 s2" using stable_get_dep[OF st tm, of ?k] g2 by simp
  have R12: "R s s2" by (rule stable_trans[OF st R1 R2])
  have stk: "activeReactiveEffectStack s2 = activeReactiveEffectStack s"
    using get_depsMap_stack[of t s] get_dep_stack[of t m ?k s1] g1 g2 by simp
  note r' = r[unfolded track_unfold[OF tr ne g1 g2]]
  show ?thesis
  proof (cases "?e \<in> set (depObjs s2 d)")
    case True
    with r' have "s' = s2" by (simp add: void_def)
    with R12 show ?thesis by simp
  next
    case False
    have kd: "known_dep s2 d" by (rule get_dep_known[OF tm g2])
    have R3: "R s2 (subscribe ?e d s2)"
      using stable_subscribe[OF st kd] False stk ne by simp
    have R13: "R s (subscribe ?e d s2)" by (rule stable_trans[OF st R12 R3])
    have cs3: "C (subscribe ?e d s2)" by (rule stable_safe[OF st R13 cs])
    from r' False consider "s' = subscribe ?e d s2"
      | f where "onTrack (effectObjs (subscribe ?e d s2) ?e) = Some f"
          "and_then (call f Undefined (subscribe ?e d s2)) (\<lambda>_. void) = Some (c, s')"
      by (auto simp: void_def split: if_splits option.splits)
    then show ?thesis
    proof cases
      case 1
      with R13 show ?thesis by simp
    next
      case 2
      from 2(2) obtain c' where "call f Undefined (subscribe ?e d s2) = Some (c', s')"
        by (auto simp: and_then_Some void_def)
      from call_okD[OF ok stable_onTrack[OF st cs3 2(1)] cs3 this]
      have "R (subscribe ?e d s2) s'" .
      with R13 show ?thesis by (rule stable_trans[OF st])
    qed
  qed
qed

lemma stable_scheduleRun:
  assumes st: "stable R F K C g" and ok: "call_ok R F C call" and cs: "C s"
    and so: "sched_ok F s e" and r: "scheduleRun call e s = Some (c, s')"
  shows "R s s'"
proof -
  let ?pre = "if DEV s then (case onTrigger (effectObjs s e) of
                 Some f \<Rightarrow> call f Undefined s | None \<Rightarrow> void s) else void s"
  have pre: "R s s1" if "?pre = Some (c1, s1)" for c1 s1
    using that call_okD[OF ok sched_ok_onTrigger[OF so] cs] stable_refl[OF st]
    by (auto simp: void_def split: if_splits option.splits)
  from r consider x where "?pre = Some (Thrown x, s')"
    | v s1 where "?pre = Some (Returned v, s1)"
        "(case scheduler (effectObjs s1 e) of Some f \<Rightarrow> call f (EffectFn e) s1
          | None \<Rightarrow> run call e s1) = Some (c, s')"
    unfolding scheduleRun_def and_then_Some by blast
  then show ?thesis
  proof cases
    case 1
    then show ?thesis by (rule pre)
  next
    case 2
    have R1: "R s s1" using 2(1) by (rule pre)
    have cs1: "C s1" by (rule stable_safe[OF st R1 cs])
    have so1: "sched_ok F s1 e" by (rule stable_sched[OF st R1 cs so])
    have "R s1 s'"
      using 2(2) call_okD[OF ok sched_ok_scheduler[OF so1] cs1] stable_run[OF st ok cs1]
      by (auto split: option.splits)
    with R1 show ?thesis by (rule stable_trans[OF st])
  qed
qed

lemma stable_forEach_run:
  assumes st: "stable R F K C g" and ok: "call_ok R F C call"
  shows "C s \<Longrightarrow> \<forall>e \<in> set es. sched_ok F s e \<Longrightarrow>
         forEach_run call es s = Some (c, s') \<Longrightarrow> R s s'"
proof (induction es arbitrary: s)
  case Nil
  then show ?case by (simp add: void_def stable_refl[OF st])
next
  case (Cons e es)
  from Cons.prems(2) have so: "sched_ok F s e" by simp
  from Cons.prems(3) consider x where "scheduleRun call e s = Some (Thrown x, s')"
    | v s1 where "scheduleRun call e s = Some (Returned v, s1)"
        "forEach_run call es s1 = Some (c, s')"
    by (auto simp: and_then_Some)
  then show ?case
  proof cases
    case 1
    then show ?thesis by (rule stable_scheduleRun[OF st ok Cons.prems(1) so])
  next
    case 2
    have R1: "R s s1" by (rule stable_scheduleRun[OF st ok Cons.prems(1) so 2(1)])
    have so1: "\<forall>e \<in> set es. sched_ok F s1 e"
      using Cons.prems(2) stable_sched[OF st R1 Cons.prems(1)] by simp
    from R1 Cons.IH[OF stable_safe[OF st R1 Cons.prems(1)] so1 2(2)]
    show ?thesis by (rule stable_trans[OF st])
  qed
qed

lemma stable_trigger:
  assumes st: "stable R F K C g" and ok: "call_ok R F C call" and cs: "C s"
    and kx: "K (Trigger t ty k)" and gx: "g s (Trigger t ty k)"
    and r: "trigger call t ty k s = Some (c, s')"
  shows "R s s'"
proof (cases "targetMap s t")
  case None
  with r show ?thesis by (simp add: trigger_def void_def stable_refl[OF st])
next
  case (Some m)
  obtain es cs' where rs: "resolve s t m ty k = (es, cs')"
    by (cases "resolve s t m ty k") auto
  have so: "sched_ok F s e" if "e \<in> set es \<union> set cs'" for e
    using stable_resolved[OF st cs kx gx Some, of e] that rs by (simp add: runners_def)
  from r Some rs consider x where "forEach_run call cs' s = Some (Thrown x, s')"
    | v s1 where "forEach_run call cs' s = Some (Returned v, s1)"
        "forEach_run call es s1 = Some (c, s')"
    by (auto simp: trigger_def and_then_Some)
  then show ?thesis
  proof cases
    case 1
    then show ?thesis using stable_forEach_run[OF st ok cs] so by blast
  next
    case 2
    have R1: "R s s1" using stable_forEach_run[OF st ok cs _ 2(1)] so by blast
    have so1: "\<forall>e \<in> set es. sched_ok F s1 e"
      using so stable_sched[OF st R1 cs] by blast
    from R1 stable_forEach_run[OF st ok stable_safe[OF st R1 cs] so1 2(2)]
    show ?thesis by (rule stable_trans[OF st])
  qed
qed

lemma stable_stop:
  assumes st: "stable R F K C g" and ok: "call_ok R F C call" and cs: "C s"
    and r: "stop call e s = Some (c, s')"
  shows "R s s'"
proof (cases "active (effectObjs s e)")
  case False
  with r show ?thesis by (simp add: stop_def void_def stable_refl[OF st])
next
  case True
  let ?s1 = "cleanup e s"
  let ?cb = "case onStop (effectObjs ?s1 e) of Some f \<Rightarrow> call f Undefined ?s1 | None \<Rightarrow> void ?s1"
  have R1: "R s ?s1" by (rule stable_cleanup[OF st])
  have cs1: "C ?s1" by (rule stable_safe[OF st R1 cs])
  have cb: "R ?s1 s2" if "?cb = Some (c2, s2)" for c2 s2
    using that call_okD[OF ok stable_onStop[OF st cs1] cs1] stable_refl[OF st]
    by (auto simp: void_def split: option.splits)
  from r True consider x where "?cb = Some (Thrown x, s')"
    | v s2 where "?cb = Some (Returned v, s2)"
        "s' = upd_effect e (\<lambda>r. r\<lparr>active := False\<rparr>) s2"
    by (auto simp: stop_def Let_def and_then_Some void_def)
  then show ?thesis
  proof cases
    case 1
    from R1 cb[OF 1] show ?thesis by (rule stable_trans[OF st])
  next
    case 2
    have "R ?s1 s'"
      using cb[OF 2(1)] stable_deactivate[OF st, of s2 e] unfolding 2(2)
      by (rule stable_trans[OF st])
    with R1 show ?thesis by (rule stable_trans[OF st])
  qed
qed

lemma stable_trackChildRun_loop:
  assumes st: "stable R F K C g"
  shows "activeReactiveEffectStack s \<noteq> [] \<Longrightarrow> p = last (activeReactiveEffectStack s) \<Longrightarrow>
         R s (trackChildRun_loop c p i s)"
proof (induction c p i s rule: trackChildRun_loop.induct)
  case (1 c p i s)
  show ?case
  proof (cases "i < length (deps (effectObjs s c))")
    case False
    then show ?thesis
      by (subst trackChildRun_loop.simps) (simp add: stable_refl[OF st])
  next
    case True
    let ?d = "deps (effectObjs s c) ! i"
    let ?s = "if p \<notin> set (depObjs s ?d) then subscribe p ?d s else s"
    have kd: "known_dep s ?d"
      using True unfolding known_dep_def by (meson nth_mem)
    have R1: "R s ?s"
      using stable_subscribe[OF st kd "1.prems"(1)] "1.prems"(2) stable_refl[OF st] by simp
    have stk: "activeReactiveEffectStack ?s = activeReactiveEffectStack s"
      by (simp add: subscribe_frame)
    have "R ?s (trackChildRun_loop c p (Suc i) ?s)"
      using "1.IH"[OF True refl] "1.prems" stk by simp
    with R1 have "R s (trackChildRun_loop c p (Suc i) ?s)"
      by (rule stable_trans[OF st])
    then show ?thesis
      using True by (subst trackChildRun_loop.simps) (simp add: Let_def)
  qed
qed

lemma stable_trackChildRun: "stable R F K C g \<Longrightarrow> R s (trackChildRun c s)"
  by (simp add: trackChildRun_def stable_refl stable_trackChildRun_loop)

lemma stable_get_value:
  assumes st: "stable R F K C g" and ok: "call_ok R F C call" and cs: "C s"
    and b: "K (GetValue c)" and r: "get_value call c s = Some (v, s')"
  shows "R s s'"
proof -
  let ?pre = "if dirty (computedObjs s c) then
          and_then (run call (runner (computedObjs s c)) s)
            (\<lambda>v s1. void (upd_computed c (\<lambda>r. r\<lparr>cached := v, dirty := False\<rparr>) s1))
        else void s"
  have pre: "R s s1" if "?pre = Some (c1, s1)" for c1 s1
  proof (cases "dirty (computedObjs s c)")
    case False
    with that show ?thesis by (simp add: void_def stable_refl[OF st])
  next
    case True
    with that consider x where "run call (runner (computedObjs s c)) s = Some (Thrown x, s1)"
      | w s0 where "run call (runner (computedObjs s c)) s = Some (Returned w, s0)"
          "s1 = upd_computed c (\<lambda>r. r\<lparr>cached := w, dirty := False\<rparr>) s0"
      by (auto simp: and_then_Some void_def)
    then show ?thesis
    proof cases
      case 1
      then show ?thesis by (rule stable_run[OF st ok cs])
    next
      case 2
      from stable_store[OF st b True stable_run[OF st ok cs 2(1)]] show ?thesis
        unfolding 2(2) .
    qed
  qed
  from r consider x where "?pre = Some (Thrown x, s')"
    | w s2 where "?pre = Some (Returned w, s2)"
        "s' = trackChildRun (runner (computedObjs s2 c)) s2"
    unfolding get_value_def and_then_Some by (auto simp: Let_def)
  then show ?thesis
  proof cases
    case 1
    then show ?thesis by (rule pre)
  next
    case 2
    from pre[OF 2(1)] stable_trackChildRun[OF st] show ?thesis
      unfolding 2(2) by (rule stable_trans[OF st])
  qed
qed

lemma stable_set_value:
  assumes st: "stable R F K C g" and ok: "call_ok R F C call" and cs: "C s"
    and r: "set_value call c v s = Some (w, s')"
  shows "R s s'"
proof -
  from r obtain w' where "call (setter (computedObjs s c)) v s = Some (w', s')"
    by (auto simp: set_value_def and_then_Some void_def)
  then show ?thesis by (rule call_okD[OF ok stable_setter[OF st cs] cs])
qed

lemma and_then_keep:
  assumes "and_then r (\<lambda>_ s'. Some (Returned a, s')) = Some (c, s')"
  shows "\<exists>c'. r = Some (c', s')"
  using assms by (auto simp: and_then_Some)

lemma stable_exec_cmd:
  assumes st: "stable R F K C g" and ok: "call_ok R F C call" and cs: "C s"
    and b: "K x" and gx: "g s x" and r: "exec_cmd call x a s = Some (c, s')"
  shows "R s s'"
proof (cases x)
  case (Track t ty k)
  with r obtain c' where "track call t ty k s = Some (c', s')"
    using and_then_keep by fastforce
  then show ?thesis by (rule stable_track[OF st ok cs])
next
  case (Trigger t ty k)
  with r obtain c' where "trigger call t ty k s = Some (c', s')"
    using and_then_keep by fastforce
  then show ?thesis using stable_trigger[OF st ok cs] b gx Trigger by blast
next
  case (Invoke e)
  with r show ?thesis using stable_run[OF st ok cs] by simp
next
  case (Stop e)
  with r obtain c' where "stop call e s = Some (c', s')"
    using and_then_keep by fastforce
  then show ?thesis by (rule stable_stop[OF st ok cs])
next
  case (GetValue n)
  with b r show ?thesis using stable_get_value[OF st ok cs] by simp
next
  case (SetValue n)
  with r obtain c' where "set_value call n a s = Some (c', s')"
    using and_then_keep by fastforce
  then show ?thesis by (rule stable_set_value[OF st ok cs])
next
  case (Store n)
  with r show ?thesis using stable_mem[OF st] by auto
next
  case Emit
  with r show ?thesis using stable_emitted[OF st] by auto
next
  case PauseTracking
  with r show ?thesis using stable_shouldTrack[OF st] by (auto simp: pauseTracking_def)
next
  case ResumeTracking
  with r show ?thesis using stable_shouldTrack[OF st] by (auto simp: resumeTracking_def)
qed (use r stable_refl[OF st] in auto)

lemma stable_exec_body_g:
  assumes st: "stable R F K C g" and ok: "call_ok R F C call"
  shows "C s \<Longrightarrow> list_all K xs \<Longrightarrow> exec_body_g g call xs a s = Some (c, s') \<Longrightarrow> R s s'"
proof (induction xs arbitrary: a s)
  case Nil
  then show ?case by (simp add: stable_refl[OF st])
next
  case (Cons x xs)
  from Cons.prems(2) have bx: "K x" and bxs: "list_all K xs" by simp_all
  have step: "R s s1" if "exec_cmd_g g call x a s = Some (c1, s1)" for c1 s1
    using that stable_exec_cmd[OF st ok Cons.prems(1) bx]
    by (auto simp: exec_cmd_g_def split: if_splits)
  from Cons.prems(3) consider y where "exec_cmd_g g call x a s = Some (Thrown y, s')"
    | v s1 where "exec_cmd_g g call x a s = Some (Returned v, s1)"
        "exec_body_g g call xs v s1 = Some (c, s')"
    by (auto simp: and_then_Some)
  then show ?case
  proof cases
    case 1
    then show ?thesis by (rule step)
  next
    case 2
    have R1: "R s s1" by (rule step[OF 2(1)])
    from R1 Cons.IH[OF stable_safe[OF st R1 Cons.prems(1)] bxs 2(2)]
    show ?thesis by (rule stable_trans[OF st])
  qed
qed

lemma stable_apply_fn_g:
  assumes st: "stable R F K C g" and ok: "call_ok R F C call" and cs: "C s"
    and b: "F f" and r: "apply_fn_g g call f a s = Some (c, s')"
  shows "R s s'"
proof (cases f)
  case (Code xs)
  with b have "list_all K xs" using stable_code[OF st] by simp
  with r Code show ?thesis
    using stable_exec_body_g[OF st ok cs] by (simp add: apply_fn_g_def)
next
  case (Invalidate n)
  with r b show ?thesis
    using stable_invalidate[OF st, of n s]
    by (auto simp: apply_fn_g_def apply_fn_def void_def)
next
  case ReadonlySetter
  with r show ?thesis
    by (simp add: apply_fn_g_def apply_fn_def void_def stable_refl[OF st])
qed

lemma stable_callG: "stable R F K C g \<Longrightarrow> call_ok R F C (callG g n)"
proof (induction n)
  case 0
  show ?case by (simp add: call_ok_def)
next
  case (Suc n)
  show ?case
    unfolding call_ok_def
    using stable_apply_fn_g[OF Suc.prems Suc.IH[OF Suc.prems]] by auto
qed

lemma exec_body_g_top: "exec_body_g (\<lambda>_ _. True) call xs a s = exec_body call xs a s"
proof (induction xs arbitrary: a s)
  case Nil
  show ?case by simp
next
  case (Cons x xs)
  have "exec_body_g (\<lambda>_ _. True) call xs = exec_body call xs"
    by (intro ext) (rule Cons.IH)
  then show ?case by (simp add: exec_cmd_g_def)
qed

lemma apply_fn_g_top: "apply_fn_g (\<lambda>_ _. True) call f a s = apply_fn call f a s"
  by (cases f) (simp_all add: apply_fn_g_def apply_fn_def exec_body_g_top)

lemma callG_top: "callG (\<lambda>_ _. True) n = callN n"
proof (induction n)
  case 0
  show ?case by (intro ext) simp
next
  case (Suc n)
  show ?case by (intro ext) (simp add: Suc.IH apply_fn_g_top)
qed

lemma stable_callN: "stable R F K C (\<lambda>_ _. True) \<Longrightarrow> call_ok R F C (callN n)"
  using stable_callG[of R F K C "\<lambda>_ _. True" n] by (simp add: callG_top)

lemma cmd_safe_True [simp]: "cmd_safe (\<lambda>_. True) x"
  by (cases x) (simp_all add: cmd_safe_def)

lemma fn_safe_True [simp]: "fn_safe (\<lambda>_. True) f"
  by (cases f) (simp_all add: fn_safe_def list_all_iff)

lemma code_safe_True [simp]: "code_safe (\<lambda>_. True) s"
  by (simp add: code_safe_def opt_safe_def split: option.splits)

lemmas prim_defs = cleanup_eq subscribe_eq push_def pop_def get_depsMap_def get_dep_def
  upd_effect_def upd_computed_def Let_def

lemma code_safe_raw: "code_safe B s \<Longrightarrow> fn_safe B (raw (effectObjs s e))"
  by (simp add: code_safe_def)

lemma code_safe_onTrack:
  "code_safe B s \<Longrightarrow> onTrack (effectObjs s e) = Some f \<Longrightarrow> fn_safe B f"
  unfolding code_safe_def opt_safe_def by (metis option.simps(5))

lemma code_safe_onStop:
  "code_safe B s \<Longrightarrow> onStop (effectObjs s e) = Some f \<Longrightarrow> fn_safe B f"
  unfolding code_safe_def opt_safe_def by (metis option.simps(5))

lemma code_safe_setter: "code_safe B s \<Longrightarrow> fn_safe B (setter (computedObjs s c))"
  by (simp add: code_safe_def)

lemma code_safe_push [simp]: "code_safe B (push e s) = code_safe B s"
  by (simp add: code_safe_def push_def)

lemma code_safe_sched: "code_safe B s \<Longrightarrow> sched_ok (fn_safe B) s e"
  unfolding code_safe_def opt_safe_def sched_ok_def by (metis option.simps(5))

lemma stable_forI:
  assumes "\<And>s. R s s"
    and "\<And>s s'. R s s' \<Longrightarrow> code_safe B s \<Longrightarrow> code_safe B s'"
    and "\<And>s s' s''. R s s' \<Longrightarrow> R s' s'' \<Longrightarrow> R s s''"
    and "\<And>s e. R s (cleanup e s)"
    and "\<And>s e s1. active (effectObjs s e) \<Longrightarrow> e \<notin> set (activeReactiveEffectStack s) \<Longrightarrow>
          R (push e (cleanup e s)) s1 \<Longrightarrow> R s (pop s1)"
    and "\<And>s t. R s (snd (get_depsMap t s))"
    and "\<And>s t m k. targetMap s t = Some m \<Longrightarrow> R s (snd (get_dep t m k s))"
    and "\<And>s d. known_dep s d \<Longrightarrow> activeReactiveEffectStack s \<noteq> [] \<Longrightarrow>
          last (activeReactiveEffectStack s) \<notin> set (depObjs s d) \<Longrightarrow>
          R s (subscribe (last (activeReactiveEffectStack s)) d s)"
    and "\<And>s e. R s (upd_effect e (\<lambda>r. r\<lparr>active := False\<rparr>) s)"
    and "\<And>s c v. B c \<Longrightarrow> R s (upd_computed c (\<lambda>r. r\<lparr>cached := v, dirty := False\<rparr>) s)"
    and "\<And>s c. R s (upd_computed c (\<lambda>r. r\<lparr>dirty := True\<rparr>) s)"
    and "\<And>s b. R s (s\<lparr>shouldTrack := b\<rparr>)"
    and "\<And>s m. R s (s\<lparr>mem := m\<rparr>)"
    and "\<And>s x. R s (s\<lparr>emitted := x\<rparr>)"
  shows "stable_for R B"
  unfolding stable_def
proof (intro conjI allI impI, goal_cases)
  case (5 s s' e)
  from assms(2)[OF 5(1,2)] show ?case by (rule code_safe_sched)
next
  case (6 xs)
  then show ?case by (simp add: fn_safe_def)
next
  case (7 s e)
  then show ?case by (rule code_safe_raw)
next
  case (8 s e f)
  then show ?case by (rule code_safe_onTrack)
next
  case (9 s e f)
  then show ?case by (rule code_safe_onStop)
next
  case (10 s c)
  then show ?case by (rule code_safe_setter)
next
  case (11 s t ty k m e)
  then show ?case by (simp add: code_safe_sched)
next
  case (18 s s1 c v)
  from 18(1) have "B c" by (simp add: cmd_safe_def)
  from assms(3)[OF 18(3) assms(10)[OF this]] show ?case .
qed (use assms in simp_all)

lemma stable_same_stack: "stable_for same_stack (\<lambda>_. True)"
  by (rule stable_forI) (auto simp: same_stack_def prim_defs split: option.splits)

lemma graph_inv_stack [simp]:
  "graph_inv (s\<lparr>activeReactiveEffectStack := x\<rparr>) = graph_inv s"
  by (simp add: graph_inv_def)

lemma graph_inv_cleanup: "graph_inv s \<Longrightarrow> graph_inv (cleanup e s)"
  unfolding graph_inv_def cleanup_eq
  by (auto simp: set_delete_def)

lemma graph_inv_get_depsMap: "graph_inv s \<Longrightarrow> graph_inv (snd (get_depsMap t s))"
  unfolding graph_inv_def get_depsMap_def
  by (auto split: option.splits)

lemma graph_inv_get_dep:
  assumes "graph_inv s" and "targetMap s t = Some m"
  shows "graph_inv (snd (get_dep t m k s))"
proof (cases "map_of m k")
  case (Some d)
  with assms show ?thesis by (simp add: get_dep_def)
next
  case None
  let ?d = "nextDep s"
  have e: "depObjs s ?d = []" using assms(1) by (simp add: graph_inv_def)
  have no: "?d \<notin> set (deps (effectObjs s e))" for e
    using assms(1) e unfolding graph_inv_def by (metis empty_iff empty_set)
  have lt: "d < nextDep s" if "targetMap s t' = Some m'" "(k', d) \<in> set m'" for t' m' k' d
    using assms(1) that unfolding graph_inv_def by blast
  show ?thesis
    using None assms e no lt
    unfolding graph_inv_def get_dep_def Let_def
    by (auto simp: less_Suc_eq split: if_splits)
qed

lemma known_dep_lt: "graph_inv s \<Longrightarrow> known_dep s d \<Longrightarrow> d < nextDep s"
proof -
  assume g: "graph_inv s" and k: "known_dep s d"
  from k consider t m k' where "targetMap s t = Some m" "map_of m k' = Some d"
    | c where "d \<in> set (deps (effectObjs s c))"
    unfolding known_dep_def by blast
  then show ?thesis
  proof cases
    case 1
    then have "(k', d) \<in> set m" by (simp add: map_of_SomeD)
    with 1 g show ?thesis unfolding graph_inv_def by blast
  next
    case 2
    with g have "c \<in> set (depObjs s d)" unfolding graph_inv_def by blast
    then have "depObjs s d \<noteq> []" by auto
    with g show ?thesis unfolding graph_inv_def by (meson not_le)
  qed
qed

lemma graph_inv_subscribe:
  assumes "graph_inv s" and "known_dep s d" and "e \<notin> set (depObjs s d)"
  shows "graph_inv (subscribe e d s)"
proof -
  have lt: "d < nextDep s" by (rule known_dep_lt[OF assms(1,2)])
  show ?thesis
    using assms(1,3) lt unfolding graph_inv_def subscribe_eq
    by (auto simp: set_add_def)
qed

lemma stable_graph_inv: "stable_for keeps_graph_inv (\<lambda>_. True)"
proof (rule stable_forI, goal_cases)
  case (4 s e)
  show ?case by (simp add: keeps_graph_inv_def graph_inv_cleanup)
next
  case (5 s e s1)
  then show ?case by (simp add: keeps_graph_inv_def push_def pop_def graph_inv_cleanup)
next
  case (6 s t)
  show ?case by (simp add: keeps_graph_inv_def graph_inv_get_depsMap)
next
  case (7 s t m k)
  then show ?case by (simp add: keeps_graph_inv_def graph_inv_get_dep)
next
  case (8 s d)
  then show ?case by (simp add: keeps_graph_inv_def graph_inv_subscribe)
qed (simp_all add: keeps_graph_inv_def graph_inv_def upd_effect_def upd_computed_def)












lemma callN_same_stack:
  "callN n f a s = Some (c, s') \<Longrightarrow> activeReactiveEffectStack s' = activeReactiveEffectStack s"
  using call_okD[OF stable_callN[OF stable_same_stack] fn_safe_True code_safe_True]
  by (simp add: same_stack_def)

lemma addRunner_frame: "effectObjs s' = effectObjs s \<Longrightarrow> addRunner s' = addRunner s"
  by (intro ext) (simp add: addRunner_def)

lemma addRunners_frame:
  assumes "effectObjs s' = effectObjs s"
  shows "addRunners s' = addRunners s"
  by (intro ext) (simp add: addRunners_def addRunner_frame[OF assms] cong: option.case_cong)

lemma dep_members_frame: "depObjs s' = depObjs s \<Longrightarrow> dep_members s' = dep_members s"
  by (rule ext) (simp add: dep_members_def)

lemma resolve_frame:
  assumes "effectObjs s' = effectObjs s" and "depObjs s' = depObjs s" and "objs s' = objs s"
  shows "resolve s' = resolve s"
  by (intro ext)
     (simp add: resolve_def Let_def addRunners_frame[OF assms(1)] dep_members_frame[OF assms(2)]
                assms)

lemma set_set_add [simp]: "set (set_add x xs) = insert x (set xs)"
  by (auto simp: set_add_def)

lemma runners_addRunner: "runners (addRunner s e acc) = insert e (runners acc)"
  by (cases acc) (auto simp: addRunner_def runners_def)

lemma runners_fold_addRunner: "runners (fold (addRunner s) es acc) = runners acc \<union> set es"
  by (induction es arbitrary: acc) (simp_all add: runners_addRunner)

lemma runners_addRunners_Some:
  "runners (addRunners s acc (Some es)) = runners acc \<union> set es"
  by (simp add: addRunners_def runners_fold_addRunner)

lemma runners_addRunners:
  "runners (addRunners s acc es) = runners acc \<union> (case es of None \<Rightarrow> {} | Some xs \<Rightarrow> set xs)"
  by (cases es) (simp_all add: runners_addRunners_Some, simp add: addRunners_def)

lemma runners_dep_members:
  "(case dep_members s (map_of depsMap k) of None \<Rightarrow> {} | Some xs \<Rightarrow> set xs) =
   subscribers_of s depsMap k"
  by (simp add: dep_members_def subscribers_of_def split: option.splits)

lemma runners_clear:
  "runners (fold (\<lambda>(_, dep) acc. addRunners s acc (Some (depObjs s dep))) depsMap acc) =
   runners acc \<union> (\<Union>dep \<in> snd ` set depsMap. set (depObjs s dep))"
proof (induction depsMap arbitrary: acc)
  case Nil
  show ?case by simp
next
  case (Cons x xs)
  show ?case
    by (cases x) (simp add: Cons.IH runners_addRunners_Some Un_assoc)
qed

lemma runners_resolve:
  "runners (resolve s target depsMap type k) = spec_subscribers s target depsMap type k"
proof (cases "type = CLEAR")
  case True
  then show ?thesis
    by (simp add: resolve_def spec_subscribers_def runners_clear) (simp add: runners_def)
next
  case False
  have e: "runners ([], []) = {}" by (simp add: runners_def)
  show ?thesis
    using False
    by (cases k)
       (simp_all add: resolve_def spec_subscribers_def Let_def runners_addRunners
          runners_dep_members e)
qed

lemma effectObjs_invalidate [simp]: "effectObjs (invalidate e s) = effectObjs s"
  by (simp add: invalidate_def upd_computed_def split: option.splits fn.splits)

lemma is_derived_invalidate [simp]: "is_derived (invalidate e' s) e = is_derived s e"
  by (simp add: is_derived_def cong: option.case_cong fn.case_cong)



lemma effectObjs_fold_invalidate [simp]: "effectObjs (fold invalidate es s) = effectObjs s"
  by (induction es arbitrary: s) simp_all










lemma trackChildRun_loop_frame:
  assumes "\<And>e d s. f (subscribe e d s) = f s"
  shows "f (trackChildRun_loop c p i s) = f s"
proof (induction c p i s rule: trackChildRun_loop.induct)
  case (1 c p i s)
  show ?case
  proof (cases "i < length (deps (effectObjs s c))")
    case False
    then show ?thesis by (subst trackChildRun_loop.simps) simp
  next
    case True
    have "f (trackChildRun_loop c p (Suc i)
              (if p \<notin> set (depObjs s (deps (effectObjs s c) ! i))
               then subscribe p (deps (effectObjs s c) ! i) s else s)) = f s"
      using "1.IH"[OF True refl] assms by simp
    then show ?thesis
      using True by (subst trackChildRun_loop.simps) (simp add: Let_def)
  qed
qed

lemma trackChildRun_frame:
  assumes "\<And>e d s. f (subscribe e d s) = f s"
  shows "f (trackChildRun c s) = f s"
  by (simp add: trackChildRun_def trackChildRun_loop_frame[of f, OF assms])

lemma computedObjs_trackChildRun [simp]: "computedObjs (trackChildRun c s) = computedObjs s"
  by (rule trackChildRun_frame) (simp add: subscribe_eq)

lemma graph_inv_init: "graph_inv (init dev os n)"
  by (simp add: graph_inv_def init_def no_effect_def)

lemma graph_inv_createReactiveEffect:
  assumes "graph_inv s" and "\<forall>d. nextEffect s \<notin> set (depObjs s d)"
  shows "graph_inv (snd (createReactiveEffect f options s))"
  using assms unfolding graph_inv_def createReactiveEffect_def Let_def
  by auto




lemma readonly_setter_noop:
  "setter (computedObjs s c) = ReadonlySetter \<Longrightarrow>
   set_value (callN (Suc n)) c v s = Some (Returned Undefined, s)"
  by (simp add: set_value_def apply_fn_def and_then_def void_def)

lemma computed_getter_setter:
  assumes "computed call (Getter g) s = Some (Returned c, s')"
  shows "setter (computedObjs s' c) = ReadonlySetter"
  using assms
  by (auto simp: computed_def effect_def createReactiveEffect_def isFunction_def Let_def
        and_then_Some)






lemma reactive_wf_init: "reactive_wf (init dev os n)"
  by (simp add: reactive_wf_def init_def)

lemma createReactiveObject_Obj:
  "createReactiveObject (Obj a) toProxy toProxy_upd toRaw toRaw_upd bh ch s =
     (if weak_get (toProxy s) (Obj a) \<noteq> Undefined then (weak_get (toProxy s) (Obj a), s)
      else if weak_has (toRaw s) (Obj a) then (Obj a, s)
      else if \<not> canObserve s a then (Obj a, s)
      else (Obj (nextObj s),
            proxied a toProxy_upd toRaw_upd
              (if ctorIsCollection (objs s a) then ch else bh) s))"
  by (simp add: createReactiveObject_def proxied_def Let_def)

lemma proxied_mutable:
  "rawToReactive (proxied a rawToReactive_update reactiveToRaw_update hs s)
     = (rawToReactive s)(a \<mapsto> Obj (nextObj s))"
  "reactiveToRaw (proxied a rawToReactive_update reactiveToRaw_update hs s)
     = (reactiveToRaw s)(nextObj s \<mapsto> Obj a)"
  "rawToReadonly (proxied a rawToReactive_update reactiveToRaw_update hs s) = rawToReadonly s"
  "readonlyToRaw (proxied a rawToReactive_update reactiveToRaw_update hs s) = readonlyToRaw s"
  "readonlyValues (proxied a rawToReactive_update reactiveToRaw_update hs s) = readonlyValues s"
  "nextObj (proxied a rawToReactive_update reactiveToRaw_update hs s) = Suc (nextObj s)"
  by (simp_all add: proxied_def Let_def)

lemma proxied_readonly:
  "rawToReadonly (proxied a rawToReadonly_update readonlyToRaw_update hs s)
     = (rawToReadonly s)(a \<mapsto> Obj (nextObj s))"
  "readonlyToRaw (proxied a rawToReadonly_update readonlyToRaw_update hs s)
     = (readonlyToRaw s)(nextObj s \<mapsto> Obj a)"
  "rawToReactive (proxied a rawToReadonly_update readonlyToRaw_update hs s) = rawToReactive s"
  "reactiveToRaw (proxied a rawToReadonly_update readonlyToRaw_update hs s) = reactiveToRaw s"
  "readonlyValues (proxied a rawToReadonly_update readonlyToRaw_update hs s) = readonlyValues s"
  "nextObj (proxied a rawToReadonly_update readonlyToRaw_update hs s) = Suc (nextObj s)"
  by (simp_all add: proxied_def Let_def)

lemma mutable_again:
  assumes c: "createReactiveObject (Obj a) rawToReactive rawToReactive_update
             reactiveToRaw reactiveToRaw_update bh ch s = (v, s1)"
  shows "createReactiveObject (Obj a) rawToReactive rawToReactive_update
             reactiveToRaw reactiveToRaw_update bh ch s1 = (v, s1) \<and>
         readonlyToRaw s1 = readonlyToRaw s \<and> readonlyValues s1 = readonlyValues s"
proof (cases "weak_get (rawToReactive s) (Obj a) \<noteq> Undefined \<or>
              weak_has (reactiveToRaw s) (Obj a) \<or> \<not> canObserve s a")
  case True
  then have "createReactiveObject (Obj a) rawToReactive rawToReactive_update
             reactiveToRaw reactiveToRaw_update bh ch s = (fst (createReactiveObject (Obj a) rawToReactive rawToReactive_update
             reactiveToRaw reactiveToRaw_update bh ch s), s)"
    unfolding createReactiveObject_Obj by auto
  with c have "s1 = s" by simp
  with c show ?thesis by simp
next
  case False
  then have "createReactiveObject (Obj a) rawToReactive rawToReactive_update
             reactiveToRaw reactiveToRaw_update bh ch s =
             (Obj (nextObj s), proxied a rawToReactive_update reactiveToRaw_update
              (if ctorIsCollection (objs s a) then ch else bh) s)"
    unfolding createReactiveObject_Obj by simp
  with c have v: "v = Obj (nextObj s)"
    and s1: "s1 = proxied a rawToReactive_update reactiveToRaw_update
              (if ctorIsCollection (objs s a) then ch else bh) s"
    by simp_all
  show ?thesis
    unfolding createReactiveObject_Obj[of a _ _ _ _ _ _ s1]
    by (simp add: s1 v proxied_mutable weak_get_def)
qed

lemma readonly_again:
  assumes c: "createReactiveObject (Obj a) rawToReadonly rawToReadonly_update
             readonlyToRaw readonlyToRaw_update bh ch s = (v, s1)"
  shows "createReactiveObject (Obj a) rawToReadonly rawToReadonly_update
             readonlyToRaw readonlyToRaw_update bh ch s1 = (v, s1) \<and>
         reactiveToRaw s1 = reactiveToRaw s \<and> readonlyValues s1 = readonlyValues s \<and>
         (\<forall>b. b < nextObj s \<longrightarrow> readonlyToRaw s1 b = readonlyToRaw s b)"
proof (cases "weak_get (rawToReadonly s) (Obj a) \<noteq> Undefined \<or>
              weak_has (readonlyToRaw s) (Obj a) \<or> \<not> canObserve s a")
  case True
  then have "createReactiveObject (Obj a) rawToReadonly rawToReadonly_update
             readonlyToRaw readonlyToRaw_update bh ch s = (fst (createReactiveObject (Obj a) rawToReadonly rawToReadonly_update
             readonlyToRaw readonlyToRaw_update bh ch s), s)"
    unfolding createReactiveObject_Obj by auto
  with c have "s1 = s" by simp
  with c show ?thesis by simp
next
  case False
  then have "createReactiveObject (Obj a) rawToReadonly rawToReadonly_update
             readonlyToRaw readonlyToRaw_update bh ch s =
             (Obj (nextObj s), proxied a rawToReadonly_update readonlyToRaw_update
              (if ctorIsCollection (objs s a) then ch else bh) s)"
    unfolding createReactiveObject_Obj by simp
  with c have v: "v = Obj (nextObj s)"
    and s1: "s1 = proxied a rawToReadonly_update readonlyToRaw_update
              (if ctorIsCollection (objs s a) then ch else bh) s"
    by simp_all
  show ?thesis
    unfolding createReactiveObject_Obj[of a _ _ _ _ _ _ s1]
    by (simp add: s1 v proxied_readonly weak_get_def)
qed

lemma nonobject_again:
  assumes "\<not> isObject t"
  shows "fst (createReactiveObject t tp tpu tr tru bh ch s) = t"
  using assms by (cases t) (simp_all add: createReactiveObject_def isObject_def)

lemma nonobject_frame:
  assumes "\<not> isObject t"
  shows "reactiveToRaw (snd (createReactiveObject t tp tpu tr tru bh ch s)) = reactiveToRaw s"
    "readonlyToRaw (snd (createReactiveObject t tp tpu tr tru bh ch s)) = readonlyToRaw s"
    "readonlyValues (snd (createReactiveObject t tp tpu tr tru bh ch s)) = readonlyValues s"
    "nextObj (snd (createReactiveObject t tp tpu tr tru bh ch s)) = nextObj s"
  using assms by (cases t; simp add: createReactiveObject_def isObject_def)+

lemma reactive_twice:
  assumes lt: "a < nextObj s"
  shows "fst (reactive (Obj a) (snd (reactive (Obj a) s))) = fst (reactive (Obj a) s)"
proof (cases "weak_has (readonlyToRaw s) (Obj a)")
  case True
  then show ?thesis by (simp add: reactive_def)
next
  case ro: False
  show ?thesis
  proof (cases "weakset_has (readonlyValues s) (Obj a)")
    case False
    obtain v s1 where c: "createReactiveObject (Obj a) rawToReactive rawToReactive_update
             reactiveToRaw reactiveToRaw_update mutableHandlers mutableCollectionHandlers s = (v, s1)"
      by (cases "createReactiveObject (Obj a) rawToReactive rawToReactive_update
             reactiveToRaw reactiveToRaw_update mutableHandlers mutableCollectionHandlers s") auto
    from mutable_again[OF c] ro False c show ?thesis
      by (simp add: reactive_def)
  next
    case True
    define t where "t = (if weak_has (reactiveToRaw s) (Obj a)
                         then weak_get (reactiveToRaw s) (Obj a) else Obj a)"
    have r1: "reactive (Obj a) s =
                createReactiveObject t rawToReadonly rawToReadonly_update
                  readonlyToRaw readonlyToRaw_update readonlyHandlers readonlyCollectionHandlers s"
      using ro True by (simp add: reactive_def readonly_def t_def)
    have r2: "reactive (Obj a) s1 =
                createReactiveObject t rawToReadonly rawToReadonly_update
                  readonlyToRaw readonlyToRaw_update readonlyHandlers readonlyCollectionHandlers s1"
      if "\<not> weak_has (readonlyToRaw s1) (Obj a)" "readonlyValues s1 = readonlyValues s"
        "reactiveToRaw s1 = reactiveToRaw s" for s1
      using that True by (simp add: reactive_def readonly_def t_def)
    show ?thesis
    proof (cases "isObject t")
      case False
      let ?s1 = "snd (createReactiveObject t rawToReadonly rawToReadonly_update
                  readonlyToRaw readonlyToRaw_update readonlyHandlers readonlyCollectionHandlers s)"
      have "reactive (Obj a) ?s1 =
                createReactiveObject t rawToReadonly rawToReadonly_update
                  readonlyToRaw readonlyToRaw_update readonlyHandlers readonlyCollectionHandlers ?s1"
        by (rule r2) (simp_all add: nonobject_frame[OF False] ro)
      then show ?thesis
        by (simp add: r1 nonobject_again[OF False])
    next
      case obj: True
      then obtain b where b: "t = Obj b" by (auto simp: isObject_def split: val.splits)
      obtain v s1 where c: "createReactiveObject (Obj b) rawToReadonly rawToReadonly_update
                  readonlyToRaw readonlyToRaw_update readonlyHandlers readonlyCollectionHandlers s
                  = (v, s1)"
        by (cases "createReactiveObject (Obj b) rawToReadonly rawToReadonly_update
                  readonlyToRaw readonlyToRaw_update readonlyHandlers readonlyCollectionHandlers s")
           auto
      note again = readonly_again[OF c]
      from again lt ro have ro1: "\<not> weak_has (readonlyToRaw s1) (Obj a)"
        by (simp add: weak_has_def)
      have "reactive (Obj a) s1 = (v, s1)"
        using r2[OF ro1] again by (simp add: b)
      moreover have "reactive (Obj a) s = (v, s1)"
        using r1 b c by simp
      ultimately show ?thesis by simp
    qed
  qed
qed

lemma reactive_proxy:
  assumes "reactive_wf s" and "reactiveToRaw s p \<noteq> None" and "p \<notin> readonlyValues s"
  shows "reactive (Obj p) s = (Obj p, s)"
proof -
  from assms(1,2) have "rawToReactive s p = None" by (simp add: reactive_wf_def)
  with assms(2,3) show ?thesis
    by (simp add: reactive_def createReactiveObject_Obj weak_has_def weak_get_def weakset_has_def)
qed

lemma reactive_wf_frame:
  assumes w: "reactive_wf s" and r1: "rawToReactive s1 = rawToReactive s"
    and r2: "reactiveToRaw s1 = reactiveToRaw s" and le: "nextObj s \<le> nextObj s1"
  shows "reactive_wf s1"
proof -
  from w have w1: "\<And>q. reactiveToRaw s q \<noteq> None \<Longrightarrow> rawToReactive s q = None"
    and w2: "\<And>b. nextObj s \<le> b \<Longrightarrow> rawToReactive s b = None \<and> reactiveToRaw s b = None"
    and w3: "\<And>q v. reactiveToRaw s q = Some v \<Longrightarrow> \<exists>b. v = Obj b \<and> b < nextObj s"
    unfolding reactive_wf_def by blast+
  show ?thesis
    unfolding reactive_wf_def r1 r2
  proof (intro conjI allI impI)
    fix q assume "reactiveToRaw s q \<noteq> None"
    then show "rawToReactive s q = None" by (rule w1)
  next
    fix b assume "nextObj s1 \<le> b"
    with le have "nextObj s \<le> b" by simp
    then show "rawToReactive s b = None" "reactiveToRaw s b = None" using w2 by simp_all
  next
    fix q v assume "reactiveToRaw s q = Some v"
    from w3[OF this] le show "\<exists>b. v = Obj b \<and> b < nextObj s1" by auto
  qed
qed

lemma readonly_create_frame:
  "rawToReactive (snd (createReactiveObject t rawToReadonly rawToReadonly_update
             readonlyToRaw readonlyToRaw_update bh ch s)) = rawToReactive s \<and>
   reactiveToRaw (snd (createReactiveObject t rawToReadonly rawToReadonly_update
             readonlyToRaw readonlyToRaw_update bh ch s)) = reactiveToRaw s \<and>
   nextObj s \<le> nextObj (snd (createReactiveObject t rawToReadonly rawToReadonly_update
             readonlyToRaw readonlyToRaw_update bh ch s))"
proof (cases t)
  case (Obj a)
  show ?thesis
    unfolding Obj createReactiveObject_Obj by (simp add: proxied_readonly)
qed (simp_all add: createReactiveObject_def)

lemma reactive_wf_mutable:
  assumes w: "reactive_wf s" and lt: "a < nextObj s"
  shows "reactive_wf (snd (createReactiveObject (Obj a) rawToReactive rawToReactive_update
             reactiveToRaw reactiveToRaw_update bh ch s))"
proof (cases "weak_get (rawToReactive s) (Obj a) \<noteq> Undefined \<or>
              weak_has (reactiveToRaw s) (Obj a) \<or> \<not> canObserve s a")
  case True
  then have "snd (createReactiveObject (Obj a) rawToReactive rawToReactive_update
             reactiveToRaw reactiveToRaw_update bh ch s) = s"
    unfolding createReactiveObject_Obj by auto
  with w show ?thesis by simp
next
  case False
  then have nr: "reactiveToRaw s a = None" by (simp add: weak_has_def)
  let ?p = "nextObj s"
  let ?s1 = "snd (createReactiveObject (Obj a) rawToReactive rawToReactive_update
             reactiveToRaw reactiveToRaw_update bh ch s)"
  have r: "rawToReactive ?s1 = (rawToReactive s)(a \<mapsto> Obj ?p)"
    "reactiveToRaw ?s1 = (reactiveToRaw s)(?p \<mapsto> Obj a)"
    "nextObj ?s1 = Suc ?p"
    using False unfolding createReactiveObject_Obj by (simp_all add: proxied_mutable)
  from w have w1: "\<And>q. reactiveToRaw s q \<noteq> None \<Longrightarrow> rawToReactive s q = None"
    and w2: "\<And>b. ?p \<le> b \<Longrightarrow> rawToReactive s b = None \<and> reactiveToRaw s b = None"
    and w3: "\<And>q v. reactiveToRaw s q = Some v \<Longrightarrow> \<exists>b. v = Obj b \<and> b < ?p"
    unfolding reactive_wf_def by blast+
  show ?thesis
    unfolding reactive_wf_def r
  proof (intro conjI allI impI)
    fix q assume "((reactiveToRaw s)(?p \<mapsto> Obj a)) q \<noteq> None"
    then show "((rawToReactive s)(a \<mapsto> Obj ?p)) q = None"
      using w1[of q] w2[of ?p] nr lt by (auto split: if_splits)
  next
    fix b assume "Suc ?p \<le> b"
    then show "((rawToReactive s)(a \<mapsto> Obj ?p)) b = None"
      using w2[of b] lt by auto
  next
    fix b assume "Suc ?p \<le> b"
    then show "((reactiveToRaw s)(?p \<mapsto> Obj a)) b = None"
      using w2[of b] by auto
  next
    fix q v assume "((reactiveToRaw s)(?p \<mapsto> Obj a)) q = Some v"
    then show "\<exists>b. v = Obj b \<and> b < Suc ?p"
      using w3[of q v] lt by (auto split: if_splits simp: less_Suc_eq)
  qed
qed

lemma reactive_wf_reactive:
  assumes "reactive_wf s" and "a < nextObj s"
  shows "reactive_wf (snd (reactive (Obj a) s))"
proof (cases "weak_has (readonlyToRaw s) (Obj a)")
  case True
  with assms show ?thesis by (simp add: reactive_def)
next
  case ro: False
  show ?thesis
  proof (cases "weakset_has (readonlyValues s) (Obj a)")
    case True
    with ro show ?thesis
      using reactive_wf_frame[OF assms(1)] readonly_create_frame
      by (simp add: reactive_def readonly_def)
  next
    case False
    with ro show ?thesis
      using reactive_wf_mutable[OF assms] by (simp add: reactive_def)
  qed
qed






































section \<open>Evaluation of concrete runs\<close>

lemmas eval_defs = init_def EMPTY_OBJ_def no_effect_def no_computed_def plain_object_def
  createReactiveEffect_def effect_def effect_fn_def push_def pop_def run_def cleanup_def
  upd_effect_def upd_dep_def upd_computed_def set_add_def set_delete_def subscribe_def
  stop_def track_def get_depsMap_def get_dep_def trigger_def resolve_def addRunners_def
  addRunner_def
  dep_members_def scheduleRun_def apply_fn_def and_then_def void_def Let_def
  pauseTracking_def resumeTracking_def ITERATE_KEY_def observe_def final_state_def

lemmas eval_computed = computed_def isFunction_def get_value_def set_value_def
  trackChildRun_def trackChildRun_loop.simps

lemma subscribed_targetMap:
  "targetMap subscribed_state 0 = Some [(Some (KStr ''k''), 0), (Some ITERATE_KEY, 1)]"
  "targetMap subscribed_state 1 = None"
  "depObjs subscribed_state 0 = [0]" "depObjs subscribed_state (Suc 0) = [0]"
  "isArray (objs subscribed_state 0) = False"
  by (simp_all add: subscribed_state_def eval_defs)


lemmas reactive_defs = reactive_def readonly_def createReactiveObject_def weak_has_def
  weak_get_def weakset_has_def canObserve_def observableValueRE_test_def markReadonly_def
  markNonReactive_def isReactive_def isReadonly_def Let_def













section \<open>The claims\<close>

text \<open>
  C1 (as stated): for an active effect that is already on the stack, \<open>run\<close> skips the
  cleanup, invokes the computation and returns its result. This fails: the effect of
  \<open>self_call_state\<close> is active and on the stack, its function would emit 7 and return 7,
  and \<open>run\<close> returns \<open>undefined\<close> and leaves the state as it is.
\<close>

theorem run_on_stack_counterexample:
  "active (effectObjs self_call_state 0) \<and>
   0 \<in> set (activeReactiveEffectStack self_call_state) \<and>
   callN 1 (raw (effectObjs self_call_state 0)) Undefined self_call_state =
     Some (Returned (Num 7), self_call_state\<lparr>emitted := [Num 7]\<rparr>) \<and>
   run (callN 1) 0 self_call_state = Some (Returned Undefined, self_call_state)"
  by (simp add: self_call_state_def eval_defs)

text \<open>
  C1 (amended): for an active effect that is already on the stack, \<open>run\<close> skips the
  cleanup, does not invoke the computation (no function is called, the state is unchanged)
  and returns \<open>undefined\<close>.
\<close>

theorem run_on_stack:
  "active (effectObjs s e) \<Longrightarrow> e \<in> set (activeReactiveEffectStack s) \<Longrightarrow>
   run call e s = Some (Returned Undefined, s)"
  by (simp add: run_def)

theorem run_on_stack_witness:
  "active (effectObjs self_call_state 0) \<and>
   0 \<in> set (activeReactiveEffectStack self_call_state) \<and>
   run (callN 1) 0 self_call_state = Some (Returned Undefined, self_call_state)"
proof -
  have a: "active (effectObjs self_call_state 0)"
    by (simp add: self_call_state_def eval_defs)
  have b: "0 \<in> set (activeReactiveEffectStack self_call_state)"
    by (simp add: self_call_state_def eval_defs)
  from a b run_on_stack[OF a b, of "callN 1"] show ?thesis by simp
qed




text \<open>
  C3: \<open>trigger\<close> on a target without a key map is a no-op; otherwise the effects it
  collects (in its two local sets together) are exactly the subscribers the spec names,
  and it schedules those, and nothing else.
\<close>

theorem trigger_resolves:
  "(targetMap s target = None \<longrightarrow> trigger call target type k s = Some (Returned Undefined, s)) \<and>
   (targetMap s target = Some depsMap \<longrightarrow>
      runners (resolve s target depsMap type k) = spec_subscribers s target depsMap type k \<and>
      trigger call target type k s =
        and_then (forEach_run call (snd (resolve s target depsMap type k)) s)
          (\<lambda>_. forEach_run call (fst (resolve s target depsMap type k))))"
  by (simp add: trigger_def void_def runners_resolve split: prod.splits)

theorem trigger_resolves_witness:
  "targetMap subscribed_state 1 = None \<and>
   trigger (callN 1) 1 SET (Some (KStr ''k'')) subscribed_state
     = Some (Returned Undefined, subscribed_state) \<and>
   targetMap subscribed_state 0 = Some [(Some (KStr ''k''), 0), (Some ITERATE_KEY, 1)] \<and>
   spec_subscribers subscribed_state 0 [(Some (KStr ''k''), 0), (Some ITERATE_KEY, 1)] ADD
     (Some (KStr ''x'')) = {0} \<and>
   runners (resolve subscribed_state 0 [(Some (KStr ''k''), 0), (Some ITERATE_KEY, 1)] ADD
     (Some (KStr ''x''))) = {0} \<and>
   runners (resolve subscribed_state 0 [(Some (KStr ''k''), 0), (Some ITERATE_KEY, 1)] SET
     (Some (KStr ''x''))) = {}"
proof -
  let ?m = "[(Some (KStr ''k''), 0), (Some ITERATE_KEY, 1::nat)]"
  note t = subscribed_targetMap
  have a: "trigger (callN 1) 1 SET (Some (KStr ''k'')) subscribed_state
     = Some (Returned Undefined, subscribed_state)"
    using trigger_resolves[of subscribed_state 1 "callN 1" SET "Some (KStr ''k'')"] t(2)
    by blast
  have b: "spec_subscribers subscribed_state 0 ?m ADD (Some (KStr ''x'')) = {0}"
    "spec_subscribers subscribed_state 0 ?m SET (Some (KStr ''x'')) = {}"
    by (simp_all add: spec_subscribers_def subscribers_of_def t ITERATE_KEY_def)
  have c: "runners (resolve subscribed_state 0 ?m ty k) = spec_subscribers subscribed_state 0 ?m ty k"
    for ty k
    using trigger_resolves[of subscribed_state 0 "callN 1" ty k ?m] t(1) by blast
  from a b c t show ?thesis by simp
qed

text \<open>
  C4: in a state where the subscriber sets and the \<open>deps\<close> lists agree (an effect is a
  member of a set if and only if the set is in its list; sets are allocated in order),
  they still agree after every \<open>track\<close>, \<open>trigger\<close>, effect run, \<open>stop\<close> and read of a
  derived value that completes, by returning or by throwing, whatever user code runs in
  between; and adding an effect to a set that has it changes nothing.
\<close>

theorem graph_consistent:
  "graph_inv s \<Longrightarrow>
     (\<forall>e d. e \<in> set (depObjs s d) \<longleftrightarrow> d \<in> set (deps (effectObjs s e))) \<and>
     (track (callN n) target type k s = Some (c1, s1) \<longrightarrow> graph_inv s1) \<and>
     (trigger (callN n) target type k s = Some (c2, s2) \<longrightarrow> graph_inv s2) \<and>
     (run (callN n) e s = Some (c3, s3) \<longrightarrow> graph_inv s3) \<and>
     (stop (callN n) e s = Some (c4, s4) \<longrightarrow> graph_inv s4) \<and>
     (get_value (callN n) c s = Some (c5, s5) \<longrightarrow> graph_inv s5) \<and>
     set_add e (set_add e xs) = set_add e xs \<and>
     (e \<in> set xs \<longrightarrow> set_add e xs = xs)"
proof -
  assume g: "graph_inv s"
  note st = stable_graph_inv
  note ok = stable_callN[OF stable_graph_inv, of n]
  have 1: "\<forall>e d. e \<in> set (depObjs s d) \<longleftrightarrow> d \<in> set (deps (effectObjs s e))"
    using g by (simp add: graph_inv_def)
  have 2: "track (callN n) target type k s = Some (c1, s1) \<longrightarrow> graph_inv s1"
    using stable_track[OF st ok code_safe_True] g
    by (simp add: keeps_graph_inv_def)
  have 3: "trigger (callN n) target type k s = Some (c2, s2) \<longrightarrow> graph_inv s2"
    using stable_trigger[OF st ok code_safe_True cmd_safe_True TrueI] g
    by (simp add: keeps_graph_inv_def)
  have 4: "run (callN n) e s = Some (c3, s3) \<longrightarrow> graph_inv s3"
    using stable_run[OF st ok code_safe_True] g
    by (simp add: keeps_graph_inv_def)
  have 5: "stop (callN n) e s = Some (c4, s4) \<longrightarrow> graph_inv s4"
    using stable_stop[OF st ok code_safe_True] g
    by (simp add: keeps_graph_inv_def)
  have 6: "get_value (callN n) c s = Some (c5, s5) \<longrightarrow> graph_inv s5"
    using stable_get_value[OF st ok code_safe_True cmd_safe_True] g
    by (simp add: keeps_graph_inv_def)
  have 7: "set_add e (set_add e xs) = set_add e xs" "e \<in> set xs \<longrightarrow> set_add e xs = xs"
    by (simp_all add: set_add_def)
  from 1 2 3 4 5 6 7 show ?thesis by blast
qed

theorem graph_consistent_witness:
  "graph_inv reader_state \<and>
   observe (run (callN 1) 0 reader_state) = Some (Returned Undefined, []) \<and>
   graph_inv (final_state (run (callN 1) 0 reader_state)) \<and>
   depObjs (final_state (run (callN 1) 0 reader_state)) 0 = [0] \<and>
   deps (effectObjs (final_state (run (callN 1) 0 reader_state)) 0) = [0]"
proof -
  have g: "graph_inv reader_state"
    unfolding reader_state_def
    by (rule graph_inv_createReactiveEffect[OF graph_inv_init]) (simp add: init_def)
  have r: "\<exists>s1. run (callN 1) 0 reader_state = Some (Returned Undefined, s1)"
    by (simp add: reader_state_def eval_defs)
  then obtain s1 where s1: "run (callN 1) 0 reader_state = Some (Returned Undefined, s1)" ..
  from graph_consistent[OF g, where n = 1 and e = 0 and ?c3.0 = "Returned Undefined" and ?s3.0 = s1] s1
  have "graph_inv s1" by blast
  then have g1: "graph_inv (final_state (run (callN 1) 0 reader_state))"
    unfolding final_state_def s1 by simp
  have o: "observe (run (callN 1) 0 reader_state) = Some (Returned Undefined, [])"
    by (simp add: reader_state_def eval_defs)
  have d: "depObjs (final_state (run (callN 1) 0 reader_state)) 0 = [0]"
    "deps (effectObjs (final_state (run (callN 1) 0 reader_state)) 0) = [0]"
    by (simp_all add: reader_state_def eval_defs)
  from g o g1 d show ?thesis by simp
qed




text \<open>
  C6: a write to a read-only derived value, in a development build. The write returns and
  leaves the whole state unchanged (cached value, dirty flag, dependency graph), and with
  it the console: no warning is reported. The setter of a read-only derived value is the
  empty function of \<open>computed\<close>, whose body is a TODO comment.
\<close>

theorem readonly_write_silent:
  "DEV readonly_computed_state \<and>
   setter (computedObjs readonly_computed_state 0) = ReadonlySetter \<and>
   console readonly_computed_state = [] \<and>
   set_value (callN 1) 0 (Num 2) readonly_computed_state
     = Some (Returned Undefined, readonly_computed_state)"
proof -
  have a: "DEV readonly_computed_state" "console readonly_computed_state = []"
    "setter (computedObjs readonly_computed_state 0) = ReadonlySetter"
    by (simp_all add: readonly_computed_state_def eval_defs eval_computed)
  from a readonly_setter_noop[OF a(3), of 0 "Num 2"] show ?thesis by simp
qed




text \<open>
  C8: a run of an active effect that is not on the stack pushes the effect before the
  computation (which starts on the stack extended by the effect, after the cleanup), and
  pops it on every exit path: whenever the computation completes, by returning or by
  throwing, \<open>run\<close> completes the same way (a thrown value propagates to the caller) and the
  stack is what it was before the run. Only a computation that does not return keeps
  \<open>run\<close> from returning.
\<close>

theorem run_balanced:
  assumes "active (effectObjs s e)" and "e \<notin> set (activeReactiveEffectStack s)"
  shows "activeReactiveEffectStack (push e (cleanup e s)) = activeReactiveEffectStack s @ [e] \<and>
         (case callN n (raw (effectObjs s e)) Undefined (push e (cleanup e s)) of
            None \<Rightarrow> run (callN n) e s = None
          | Some (c, s1) \<Rightarrow>
              run (callN n) e s = Some (c, pop s1) \<and>
              activeReactiveEffectStack (pop s1) = activeReactiveEffectStack s)"
proof -
  have st: "activeReactiveEffectStack (push e (cleanup e s)) = activeReactiveEffectStack s @ [e]"
    by (simp add: push_def cleanup_eq)
  show ?thesis
  proof (cases "callN n (raw (effectObjs s e)) Undefined (push e (cleanup e s))")
    case None
    with assms st show ?thesis by (simp add: run_def)
  next
    case (Some r)
    obtain c s1 where r: "r = (c, s1)" by (cases r) auto
    from callN_same_stack[OF Some[unfolded r]] st
    have "activeReactiveEffectStack (pop s1) = activeReactiveEffectStack s"
      by (simp add: pop_def)
    with assms st Some r show ?thesis by (simp add: run_def)
  qed
qed

theorem run_balanced_witness:
  "active (effectObjs throwing_state 0) \<and>
   0 \<notin> set (activeReactiveEffectStack throwing_state) \<and>
   run (callN 1) 0 throwing_state = Some (Thrown (Num 1), throwing_state) \<and>
   activeReactiveEffectStack throwing_state = []"
proof -
  have a: "active (effectObjs throwing_state 0)"
    by (simp add: throwing_state_def eval_defs)
  have b: "0 \<notin> set (activeReactiveEffectStack throwing_state)"
    by (simp add: throwing_state_def eval_defs)
  have c: "callN 1 (raw (effectObjs throwing_state 0)) Undefined
             (push 0 (cleanup 0 throwing_state)) = Some (Thrown (Num 1), push 0 throwing_state)"
    by (simp add: throwing_state_def eval_defs)
  have d: "pop (push 0 throwing_state) = throwing_state"
    by (simp add: throwing_state_def eval_defs)
  have e: "activeReactiveEffectStack throwing_state = []"
    by (simp add: throwing_state_def eval_defs)
  from run_balanced[OF a b, of 1] c d
  have "run (callN 1) 0 throwing_state = Some (Thrown (Num 1), throwing_state)"
    by simp
  with a b e show ?thesis by simp
qed

text \<open>
  C9: while tracking is paused, \<open>track\<close> is a no-op whatever the stack holds: it returns
  and leaves the whole state (the dependency store and every effect's \<open>deps\<close> with it)
  unchanged; after \<open>resumeTracking\<close> the store, the sets and the effects are those before
  the pause, so every later \<open>trigger\<close> resolves the subscribers it would have resolved
  without the read.
\<close>

theorem track_paused:
  "track call target type k (pauseTracking s) = Some (Returned Undefined, pauseTracking s) \<and>
   targetMap (resumeTracking (pauseTracking s)) = targetMap s \<and>
   depObjs (resumeTracking (pauseTracking s)) = depObjs s \<and>
   effectObjs (resumeTracking (pauseTracking s)) = effectObjs s \<and>
   resolve (resumeTracking (pauseTracking s)) = resolve s"
proof (intro conjI)
  show "track call target type k (pauseTracking s) = Some (Returned Undefined, pauseTracking s)"
    by (simp add: track_def void_def pauseTracking_def)
  show "resolve (resumeTracking (pauseTracking s)) = resolve s"
    by (rule resolve_frame) (simp_all add: pauseTracking_def resumeTracking_def)
qed (simp_all add: pauseTracking_def resumeTracking_def)

text \<open>The scenario of the spec: an effect reads a key while tracking is paused; a later
  write to that key does not run it again (it emitted once, when it was created).\<close>

theorem track_paused_witness:
  "track (callN 1) 0 GET (Some (KStr ''k'')) (pauseTracking self_call_state)
     = Some (Returned Undefined, pauseTracking self_call_state) \<and>
   observe (effect (callN 2) (Inr (Code paused_read)) EMPTY_OBJ (init True (\<lambda>_. plain_object) 1))
     = Some (Returned 0, [Num 1]) \<and>
   observe (and_then
              (effect (callN 2) (Inr (Code paused_read)) EMPTY_OBJ (init True (\<lambda>_. plain_object) 1))
              (\<lambda>_. trigger (callN 2) 0 SET (Some (KStr ''k''))))
     = Some (Returned Undefined, [Num 1])"
proof (intro conjI)
  show "track (callN 1) 0 GET (Some (KStr ''k'')) (pauseTracking self_call_state)
     = Some (Returned Undefined, pauseTracking self_call_state)"
    using track_paused[of "callN 1" 0 GET "Some (KStr ''k'')" self_call_state] by blast
  show "observe (effect (callN 2) (Inr (Code paused_read)) EMPTY_OBJ
                   (init True (\<lambda>_. plain_object) 1)) = Some (Returned 0, [Num 1])"
    by (simp add: paused_read_def eval_defs numeral_2_eq_2)
  show "observe (and_then
              (effect (callN 2) (Inr (Code paused_read)) EMPTY_OBJ (init True (\<lambda>_. plain_object) 1))
              (\<lambda>_. trigger (callN 2) 0 SET (Some (KStr ''k''))))
     = Some (Returned Undefined, [Num 1])"
    by (simp add: paused_read_def eval_defs numeral_2_eq_2)
qed

text \<open>
  C10 (as stated): \<open>reactive(p)\<close> returns \<open>p\<close> itself for every reactive proxy \<open>p\<close>. This
  fails for a proxy that was marked readonly: \<open>reactive\<close> then returns a new readonly
  proxy of the raw object.
\<close>

theorem reactive_cached_counterexample:
  "reactive (Obj 0) (init False (\<lambda>_. plain_object) 1)
     = (Obj 1, snd (reactive (Obj 0) (init False (\<lambda>_. plain_object) 1))) \<and>
   isReactive marked_proxy_state (Obj 1) \<and>
   reactiveToRaw marked_proxy_state 1 = Some (Obj 0) \<and>
   fst (reactive (Obj 1) marked_proxy_state) = Obj 2"
  by (simp add: marked_proxy_state_def reactive_defs init_def plain_object_def numeral_2_eq_2)

text \<open>
  C10 (amended): for every existing object \<open>t\<close>, a second call \<open>reactive(t)\<close> returns the
  value the first call returned (the same proxy); and \<open>reactive(p)\<close>, for a reactive proxy
  \<open>p\<close> that is not marked readonly, returns \<open>p\<close> and changes nothing. The condition on
  the WeakMaps that the second part needs holds initially and is kept by \<open>reactive\<close>.
\<close>

theorem reactive_cached:
  "(a < nextObj s \<longrightarrow>
      fst (reactive (Obj a) (snd (reactive (Obj a) s))) = fst (reactive (Obj a) s)) \<and>
   (reactive_wf s \<and> reactiveToRaw s p \<noteq> None \<and> p \<notin> readonlyValues s \<longrightarrow>
      reactive (Obj p) s = (Obj p, s)) \<and>
   (reactive_wf s \<and> a < nextObj s \<longrightarrow> reactive_wf (snd (reactive (Obj a) s)))"
  using reactive_twice reactive_proxy reactive_wf_reactive by blast

theorem reactive_cached_witness:
  "(0::nat) < nextObj (init False (\<lambda>_. plain_object) 1) \<and>
   reactive_wf (init False (\<lambda>_. plain_object) 1) \<and>
   fst (reactive (Obj 0) (init False (\<lambda>_. plain_object) 1)) = Obj 1 \<and>
   fst (reactive (Obj 0) (snd (reactive (Obj 0) (init False (\<lambda>_. plain_object) 1)))) = Obj 1 \<and>
   reactive_wf (snd (reactive (Obj 0) (init False (\<lambda>_. plain_object) 1))) \<and>
   reactiveToRaw (snd (reactive (Obj 0) (init False (\<lambda>_. plain_object) 1))) 1 \<noteq> None \<and>
   1 \<notin> readonlyValues (snd (reactive (Obj 0) (init False (\<lambda>_. plain_object) 1))) \<and>
   reactive (Obj 1) (snd (reactive (Obj 0) (init False (\<lambda>_. plain_object) 1)))
     = (Obj 1, snd (reactive (Obj 0) (init False (\<lambda>_. plain_object) 1)))"
proof -
  let ?s = "init False (\<lambda>_. plain_object) 1"
  let ?s1 = "snd (reactive (Obj 0) ?s)"
  have a: "(0::nat) < nextObj ?s" by (simp add: init_def)
  have w: "reactive_wf ?s" by (rule reactive_wf_init)
  have f: "fst (reactive (Obj 0) ?s) = Obj 1"
    by (simp add: reactive_defs init_def plain_object_def)
  from reactive_cached[of 0 ?s] a w
  have t: "fst (reactive (Obj 0) ?s1) = fst (reactive (Obj 0) ?s)" and w1: "reactive_wf ?s1"
    by blast+
  have p: "reactiveToRaw ?s1 1 \<noteq> None" "1 \<notin> readonlyValues ?s1"
    by (simp_all add: reactive_defs init_def plain_object_def)
  from reactive_cached[of 0 ?s1 1] w1 p
  have r: "reactive (Obj 1) ?s1 = (Obj 1, ?s1)" by blast
  from a w f t w1 p r show ?thesis by simp
qed

end
